theory Spec2Isabelle
  imports Complex_Main
begin

section \<open>Data model of the drawing surface (Canvas.tsx)\<close>

text \<open>
  The component keeps a list of strokes and a handful of toolbar values in React state
  and records every mutation in a provenance graph. JavaScript numbers are only stored
  and copied by the code that is modelled here, so they are reals. Values are immutable
  in HOL, hence \<^verbatim>\<open>structuredClone(x)\<close> and \<^verbatim>\<open>x.concat()\<close> are the value \<open>x\<close> itself.
\<close>

type_synonym number = real

text \<open>\<^verbatim>\<open>Lines = { tool: string; points: number[], width: number, color: string }[]\<close>\<close>

record Line =
  line_tool :: string
  points :: "number list"
  width :: number
  line_color :: string

type_synonym Lines = "Line list"

text \<open>\<^verbatim>\<open>KonvaState\<close>. The literal type of \<open>tool\<close> is erased at run time, so it is a string.\<close>

record KonvaState =
  lines :: Lines
  tool :: string
  color :: string
  penSize :: string

text \<open>Everything that can throw in the modelled code is a value of this type.\<close>

datatype error =
    TypeError
  | NodeNotFoundError
  | DuplicateActionError
  | MalformedImportError
  | UnknownActionError
  | Diverges

definition thenE :: "error + 'a \<Rightarrow> ('a \<Rightarrow> error + 'b) \<Rightarrow> error + 'b" where
  "thenE r f = (case r of Inl e \<Rightarrow> Inl e | Inr a \<Rightarrow> f a)"

definition isOK :: "error + 'a \<Rightarrow> bool" where
  "isOK r = (case r of Inl e \<Rightarrow> False | Inr a \<Rightarrow> True)"

text \<open>\<^verbatim>\<open>DEFAULT_THEME.colors.red[5]\<close> of the UI toolkit; only its identity matters.\<close>

definition DEFAULT_THEME_colors_red_5 :: string where
  "DEFAULT_THEME_colors_red_5 = ''#ff6b6b''"

text \<open>JavaScript's \<^verbatim>\<open>a || b\<close> on strings: the empty string is falsy.\<close>

definition orElse :: "string \<Rightarrow> string \<Rightarrow> string" where
  "orElse a b = (if a = [] then b else a)"

definition startsWith :: "string \<Rightarrow> string \<Rightarrow> bool" where
  "startsWith a r = (take (length r) a = r)"


section \<open>Action registry\<close>

type_synonym mutator = "KonvaState \<Rightarrow> Lines \<Rightarrow> KonvaState"

type_synonym Registry = "(string \<times> mutator) list"

record Invocation =
  mutatorName :: string
  parameters :: Lines

text \<open>
  Modelled from the spec: the registry (\<^verbatim>\<open>trrack-alpha/core/src/registry/reg\<close>) is not
  among the sources. Section 4.1: \<open>register(name, mutatorFn)\<close> fails with a
  \<open>DuplicateActionError\<close> on a name already registered; the handle it returns builds
  an invocation \<open>{mutatorName, parameters}\<close> and does not touch the graph.
\<close>

definition Registry_create :: Registry where
  "Registry_create = []"

definition register :: "Registry \<Rightarrow> string \<Rightarrow> mutator \<Rightarrow> error + Registry" where
  "register reg name f =
     (if name \<in> set (map fst reg) then Inl DuplicateActionError else Inr (reg @ [(name, f)]))"

definition handle :: "string \<Rightarrow> Lines \<Rightarrow> Invocation" where
  "handle name payload = \<lparr>mutatorName = name, parameters = payload\<rparr>"

text \<open>The five mutators of Canvas.tsx, lines 75 to 98, in the order of registration.\<close>

definition draw_fn :: mutator where
  "draw_fn state lines' = state\<lparr>lines := lines'\<rparr>"

definition drawEnd_fn :: mutator where
  "drawEnd_fn state lines' = state\<lparr>lines := lines'\<rparr>"

definition clear_fn :: mutator where
  "clear_fn state lines' = state\<lparr>lines := []\<rparr>"

definition undo_fn :: mutator where
  "undo_fn state lines' = state\<lparr>lines := lines'\<rparr>"

definition redo_fn :: mutator where
  "redo_fn state lines' = state\<lparr>lines := lines'\<rparr>"

definition registrations :: "error + Registry" where
  "registrations =
     thenE (register Registry_create ''draw'' draw_fn) (\<lambda>r1.
     thenE (register r1 ''drawEnd'' drawEnd_fn) (\<lambda>r2.
     thenE (register r2 ''clear'' clear_fn) (\<lambda>r3.
     thenE (register r3 ''undo'' undo_fn) (\<lambda>r4.
     register r4 ''redo'' redo_fn))))"

text \<open>The registry the component ends up with (see \<open>registrations_registry\<close> below).\<close>

definition registry :: Registry where
  "registry =
     [(''draw'', draw_fn), (''drawEnd'', drawEnd_fn), (''clear'', clear_fn),
      (''undo'', undo_fn), (''redo'', redo_fn)]"

text \<open>The handles \<^verbatim>\<open>actions.draw\<close>, \<^verbatim>\<open>actions.drawEnd\<close>, ... returned by \<open>register\<close>.\<close>

definition actions_draw :: "Lines \<Rightarrow> Invocation" where
  "actions_draw = handle ''draw''"

definition actions_drawEnd :: "Lines \<Rightarrow> Invocation" where
  "actions_drawEnd = handle ''drawEnd''"

definition actions_clear :: "Lines \<Rightarrow> Invocation" where
  "actions_clear = handle ''clear''"

definition actions_undo :: "Lines \<Rightarrow> Invocation" where
  "actions_undo = handle ''undo''"

definition actions_redo :: "Lines \<Rightarrow> Invocation" where
  "actions_redo = handle ''redo''"


section \<open>Provenance graph store\<close>

datatype NodeKind = Ephemeral | Durable

type_synonym NodeId = string

text \<open>
  Modelled from the spec: the provenance library (\<^verbatim>\<open>trrack-alpha/core/src/provenance/trrack\<close>)
  is not among the sources. Sections 3 and 6: a history node has a parent (absent only
  for the root), the invocation that produced it (none for the root), a kind and a
  timestamp; the graph is a mapping from node id to node, the state stored at the root
  and the id of the current node. The label is the first argument the component passes
  to \<^verbatim>\<open>trrack.apply\<close>. The mapping is an association list in order of creation.
\<close>

record HistoryNode =
  parentId :: "NodeId option"
  label :: string
  invocation :: "Invocation option"
  kind :: NodeKind
  timestamp :: nat

record ProvenanceGraph =
  nodes :: "(NodeId \<times> HistoryNode) list"
  rootState :: KonvaState
  currentNodeId :: NodeId

text \<open>What the environment supplies when a node is created: its fresh id and the time.\<close>

record Env =
  newId :: NodeId
  now :: nat

text \<open>
  Modelled from the spec: \<open>getNode(id)\<close>, section 4.2. \<open>None\<close> is the
  \<open>NodeNotFoundError\<close> of the spec, and \<^verbatim>\<open>undefined\<close> for the component's own
  \<^verbatim>\<open>trrack.graph.backend.nodes[id]\<close>.
\<close>

definition getNode :: "ProvenanceGraph \<Rightarrow> NodeId \<Rightarrow> HistoryNode option" where
  "getNode g i = map_of (nodes g) i"

text \<open>
  Modelled from the spec: \<open>createRoot(initialState)\<close>, section 4.2, called by
  \<^verbatim>\<open>initializeTrrack({registry, initialState})\<close>. The root has no parent and no
  invocation; it is not an ephemeral node.
\<close>

definition initializeTrrack :: "Env \<Rightarrow> KonvaState \<Rightarrow> ProvenanceGraph" where
  "initializeTrrack env initialState =
     \<lparr>nodes = [(newId env,
         \<lparr>parentId = None, label = ''Root'', invocation = None, kind = Durable,
          timestamp = now env\<rparr>)],
      rootState = initialState,
      currentNodeId = newId env\<rparr>"

text \<open>
  Modelled from the spec: \<open>apply(invocation, kind)\<close>, section 4.2: creates a node whose
  parent is the current node, appends it and advances the current node to it. The
  component calls it as \<^verbatim>\<open>trrack.apply(label, invocation, {isEphemeral, makeCheckpoint: false})\<close>;
  a checkpoint is a cache of the state, on which nothing depends (section 4.3).
\<close>

definition trrack_apply ::
  "Env \<Rightarrow> string \<Rightarrow> Invocation \<Rightarrow> bool \<Rightarrow> ProvenanceGraph \<Rightarrow> ProvenanceGraph" where
  "trrack_apply env lbl action isEphemeral g =
     g\<lparr>nodes := nodes g @
          [(newId env,
            \<lparr>parentId = Some (currentNodeId g), label = lbl, invocation = Some action,
             kind = (if isEphemeral then Ephemeral else Durable), timestamp = now env\<rparr>)],
       currentNodeId := newId env\<rparr>"

text \<open>
  Node predicates of the provenance library (\<^verbatim>\<open>isStateNode\<close>, \<^verbatim>\<open>isRootNode\<close>): a state
  node is a node with a parent, the root is the node without one.
\<close>

definition isStateNode :: "HistoryNode \<Rightarrow> bool" where
  "isStateNode n = (parentId n \<noteq> None)"

definition isRootNode :: "HistoryNode \<Rightarrow> bool" where
  "isRootNode n = (parentId n = None)"


section \<open>State reconstruction\<close>

text \<open>
  Modelled from the spec: \<open>resolveState(graph, nodeId)\<close>, section 4.3: walk the parent
  links from the node back to the root, collect the invocations in root-to-node order,
  replay each mutator in order from the state stored at the root. The walk follows
  parent links for as long as there are any; on a cyclic graph it would never end, which
  is the value \<open>Inl Diverges\<close> here: the walk is given as many steps as the graph has
  nodes, and a walk that reaches a root does so within that many steps (lemma
  \<open>ancestry_fuel\<close> below).
\<close>

fun ancestry ::
  "nat \<Rightarrow> (NodeId \<times> HistoryNode) list \<Rightarrow> NodeId \<Rightarrow> error + (NodeId \<times> HistoryNode) list" where
  "ancestry 0 ns i = Inl Diverges"
| "ancestry (Suc f) ns i =
     (case map_of ns i of
        None \<Rightarrow> Inl NodeNotFoundError
      | Some n \<Rightarrow>
          (case parentId n of
             None \<Rightarrow> Inr [(i, n)]
           | Some p \<Rightarrow>
               (case ancestry f ns p of
                  Inl e \<Rightarrow> Inl e
                | Inr ch \<Rightarrow> Inr ((i, n) # ch))))"

fun replay :: "Registry \<Rightarrow> KonvaState \<Rightarrow> HistoryNode list \<Rightarrow> error + KonvaState" where
  "replay reg st [] = Inr st"
| "replay reg st (n # ns) =
     (case invocation n of
        None \<Rightarrow> replay reg st ns
      | Some action \<Rightarrow>
          (case map_of reg (mutatorName action) of
             None \<Rightarrow> Inl UnknownActionError
           | Some m \<Rightarrow> replay reg (m st (parameters action)) ns))"

definition resolveState :: "Registry \<Rightarrow> ProvenanceGraph \<Rightarrow> NodeId \<Rightarrow> error + KonvaState" where
  "resolveState reg g i =
     thenE (ancestry (length (nodes g)) (nodes g) i)
       (\<lambda>ch. replay reg (rootState g) (rev (map snd ch)))"

text \<open>\<^verbatim>\<open>trrack.getState(node)\<close> of the component's instance, which holds \<open>registry\<close>.\<close>

definition getState :: "ProvenanceGraph \<Rightarrow> NodeId \<Rightarrow> error + KonvaState" where
  "getState g i = resolveState registry g i"


section \<open>History navigation\<close>

text \<open>
  Modelled from the spec: \<open>findLastNonEphemeralAncestor(startNodeId, skipCount)\<close>,
  section 4.4: walk the parent links from the start node, count only durable nodes,
  return the ancestor reached after skipping \<open>skipCount\<close> durable nodes (with 0 the
  nearest durable node at or before the start node); return the root when the history
  is exhausted. The component calls it on the current node as
  \<^verbatim>\<open>trrack.getLastNNonEphemeralNode(n)\<close> and uses the result as a node id. The walk
  has the same bound as above: it is cut off only on a graph with a cycle (lemma
  \<open>navigator_fuel\<close> below).
\<close>

fun findLastNonEphemeralAncestor ::
  "nat \<Rightarrow> (NodeId \<times> HistoryNode) list \<Rightarrow> NodeId \<Rightarrow> nat \<Rightarrow> error + NodeId" where
  "findLastNonEphemeralAncestor 0 ns i k = Inl Diverges"
| "findLastNonEphemeralAncestor (Suc f) ns i k =
     (case map_of ns i of
        None \<Rightarrow> Inl NodeNotFoundError
      | Some n \<Rightarrow>
          (case parentId n of
             None \<Rightarrow> Inr i
           | Some p \<Rightarrow>
               (if kind n = Durable
                then (if k = 0 then Inr i else findLastNonEphemeralAncestor f ns p (k - 1))
                else findLastNonEphemeralAncestor f ns p k)))"

definition getLastNNonEphemeralNode :: "ProvenanceGraph \<Rightarrow> nat \<Rightarrow> error + NodeId" where
  "getLastNNonEphemeralNode g n =
     findLastNonEphemeralAncestor (length (nodes g)) (nodes g) (currentNodeId g) n"

text \<open>
  Modelled from the spec: \<open>importGraph(serialized)\<close>, sections 4.5 and 7. The
  serialized graph has the shape of the graph itself (the component hands
  \<^verbatim>\<open>trrack.graph.backend\<close> to the host and imports what the host stored). Import fails
  with a \<open>MalformedImportError\<close> on a dangling parent reference, a missing root or a
  cycle, that is, unless the walk from every node and from the current node reaches a
  root.
\<close>

definition wellFormed :: "ProvenanceGraph \<Rightarrow> bool" where
  "wellFormed g =
     (isOK (ancestry (length (nodes g)) (nodes g) (currentNodeId g)) \<and>
      list_all (\<lambda>e. isOK (ancestry (length (nodes g)) (nodes g) (fst e))) (nodes g))"

definition importObject :: "ProvenanceGraph \<Rightarrow> error + ProvenanceGraph" where
  "importObject serialized =
     (if wellFormed serialized then Inr serialized else Inl MalformedImportError)"


section \<open>The Canvas component\<close>

text \<open>
  The answer handed to the hosting application by \<^verbatim>\<open>setAnswer\<close>, and what the host
  hands back at the next start: \<^verbatim>\<open>answers[key].provenanceGraph.stimulus\<close>, which is
  \<^verbatim>\<open>undefined\<close> (\<open>None\<close>) when no graph was stored.
\<close>

record Answer =
  status :: bool
  provenanceGraph :: ProvenanceGraph
  answers :: "(string \<times> string) list"

record StoredAnswer =
  stimulus :: "ProvenanceGraph option"

text \<open>
  The state of the component: the React state \<^verbatim>\<open>tool\<close>, \<^verbatim>\<open>penSize\<close>, \<^verbatim>\<open>lines\<close>,
  \<^verbatim>\<open>color\<close> (prefixed here, the fields of \<open>KonvaState\<close> have the same names),
  \<^verbatim>\<open>mousePos\<close>, \<^verbatim>\<open>undoStack\<close>, the ref \<^verbatim>\<open>isDrawing\<close>, the provenance instance, and the
  last answer given to \<^verbatim>\<open>setAnswer\<close>. Every handler runs on the state of the latest
  render.
\<close>

record Canvas =
  c_tool :: string
  c_penSize :: string
  c_lines :: Lines
  c_color :: string
  mousePos :: "number \<times> number"
  isDrawing :: bool
  undoStack :: "NodeId list"
  trrack :: ProvenanceGraph
  answer :: "Answer option"

definition initialState :: KonvaState where
  "initialState =
     \<lparr>lines = [], tool = ''pen'', color = DEFAULT_THEME_colors_red_5, penSize = ''5''\<rparr>"

text \<open>
  Lines 51 to 60 and 72 to 135: the first render. \<open>env\<close> gives the id and time of the
  root node. The five registrations succeed and give \<open>registry\<close> (lemma
  \<open>registrations_registry\<close> below). With a \<^verbatim>\<open>responseId\<close>, the first key of \<^verbatim>\<open>answers\<close> that starts with it is looked up
  (the key \<^verbatim>\<open>''\<close> when there is none); reading \<^verbatim>\<open>.provenanceGraph\<close> of a missing entry
  throws.
\<close>

definition Canvas_mount :: "Env \<Rightarrow> string \<Rightarrow> (string \<times> StoredAnswer) list \<Rightarrow> error + Canvas" where
  "Canvas_mount env responseId answers' =
     (let trrackInst = initializeTrrack env initialState;
          fresh = \<lparr>c_tool = ''pen'', c_penSize = ''5'', c_lines = [],
                   c_color = DEFAULT_THEME_colors_red_5, mousePos = (0, 0),
                   isDrawing = False, undoStack = [], trrack = trrackInst, answer = None\<rparr>
      in if responseId = [] then Inr fresh
         else
           (let answer' = (case find (\<lambda>a. startsWith a responseId) (map fst answers') of
                             Some a \<Rightarrow> a | None \<Rightarrow> [])
            in case map_of answers' answer' of
                 None \<Rightarrow> Inl TypeError
               | Some stored \<Rightarrow>
                   thenE (case stimulus stored of
                            None \<Rightarrow> Inr trrackInst
                          | Some serialized \<Rightarrow> importObject serialized)
                     (\<lambda>t. thenE (getState t (currentNodeId t))
                       (\<lambda>state. Inr (fresh
                          \<lparr>c_lines := lines state,
                           c_tool := orElse (tool state) ''pen'',
                           c_penSize := orElse (penSize state) ''5'',
                           c_color := orElse (color state) DEFAULT_THEME_colors_red_5,
                           trrack := t\<rparr>)))))"

text \<open>
  Lines 137 to 139: the body of the throttled function. Whether a call of
  \<^verbatim>\<open>debouncedApply\<close> runs the body at once is decided by the throttle's timer; a call it
  defers runs the body later, as a step of its own.
\<close>

definition debouncedApply_fn :: "Env \<Rightarrow> Lines \<Rightarrow> Canvas \<Rightarrow> Canvas" where
  "debouncedApply_fn env l s =
     s\<lparr>trrack := trrack_apply env ''drawing'' (actions_draw l) True (trrack s)\<rparr>"

text \<open>
  A pointer event as the handlers read it: \<^verbatim>\<open>e.target.getStage()\<close> may be null
  (\<open>NoStage\<close>), and so may \<^verbatim>\<open>getPointerPosition()\<close> (\<open>Stage None\<close>).
\<close>

datatype PointerEvent = NoStage | Stage "(number \<times> number) option"

text \<open>
  Lines 141 to 149. \<open>num\<close> is JavaScript's conversion of a string to a number
  (\<^verbatim>\<open>+penSize\<close>).
\<close>

definition handleMouseDown :: "(string \<Rightarrow> number) \<Rightarrow> PointerEvent \<Rightarrow> Canvas \<Rightarrow> error + Canvas" where
  "handleMouseDown num e s =
     (case e of
        NoStage \<Rightarrow> Inr s
      | Stage None \<Rightarrow> Inl TypeError
      | Stage (Some pos) \<Rightarrow>
          Inr (s\<lparr>isDrawing := True,
                 c_lines := c_lines s @
                   [\<lparr>line_tool = c_tool s, points = [fst pos, snd pos],
                     width = (if c_tool s = ''pen'' then num (c_penSize s)
                              else num (c_penSize s) * 8),
                     line_color = c_color s\<rparr>]\<rparr>))"

text \<open>
  Lines 151 to 176. \<open>throttleOpen\<close> says whether the throttle runs the body of
  \<^verbatim>\<open>debouncedApply\<close> for this call. \<^verbatim>\<open>if (undoStack)\<close> tests an array, which is always
  truthy. \<^verbatim>\<open>lines.splice\<close> replaces the last stroke in place, in the array that the
  pointer-down handler made for this stroke, and the stroke it puts there is a copy; the
  model has the new list as a value. Reading a property of \<^verbatim>\<open>null\<close> or
  \<^verbatim>\<open>undefined\<close> throws.
\<close>

definition handleMouseMove :: "bool \<Rightarrow> Env \<Rightarrow> PointerEvent \<Rightarrow> Canvas \<Rightarrow> error + Canvas" where
  "handleMouseMove throttleOpen env e s =
     thenE (if c_tool s = ''eraser''
            then (case e of
                    NoStage \<Rightarrow> Inl TypeError
                  | Stage None \<Rightarrow> Inl TypeError
                  | Stage (Some pos) \<Rightarrow> Inr (s\<lparr>mousePos := pos\<rparr>))
            else Inr s)
       (\<lambda>s1. if \<not> isDrawing s1 then Inr s1
              else
                (case e of
                   NoStage \<Rightarrow> Inl TypeError
                 | Stage None \<Rightarrow> Inl TypeError
                 | Stage (Some point) \<Rightarrow>
                     (if c_lines s1 = [] then Inl TypeError
                      else
                        (let lastLine = last (c_lines s1);
                             lastLine' = lastLine\<lparr>points := points lastLine @ [fst point, snd point]\<rparr>;
                             lines' = butlast (c_lines s1) @ [lastLine'];
                             s2 = s1\<lparr>c_lines := lines', undoStack := []\<rparr>
                         in Inr (if throttleOpen then debouncedApply_fn env lines' s2 else s2)))))"

text \<open>
  Lines 178 to 187. The answer holds the graph as it is at this call, with the new node.
\<close>

definition handleMouseUp :: "Env \<Rightarrow> Canvas \<Rightarrow> Canvas" where
  "handleMouseUp env s =
     (let g = trrack_apply env ''draw end'' (actions_drawEnd (c_lines s)) False (trrack s)
      in s\<lparr>isDrawing := False, trrack := g,
            answer := Some \<lparr>status = True, provenanceGraph = g, answers = []\<rparr>\<rparr>)"

text \<open>Lines 223 to 226: the button \<^verbatim>\<open>Clear all\<close>.\<close>

definition clear_onClick :: "Env \<Rightarrow> Canvas \<Rightarrow> Canvas" where
  "clear_onClick env s =
     s\<lparr>trrack := trrack_apply env ''clear'' (actions_clear []) False (trrack s),
       c_lines := []\<rparr>"

text \<open>
  Line 233: \<^verbatim>\<open>disabled\<close> of the undo icon. Reading a property of \<^verbatim>\<open>undefined\<close> throws.
\<close>

definition undo_disabled :: "Canvas \<Rightarrow> error + bool" where
  "undo_disabled s =
     thenE (getLastNNonEphemeralNode (trrack s) (length (undoStack s)))
       (\<lambda>i. case getNode (trrack s) i of
               None \<Rightarrow> Inl TypeError
             | Some n \<Rightarrow> Inr (isRootNode n))"

text \<open>Lines 234 to 243: \<^verbatim>\<open>onClick\<close> of the undo icon.\<close>

definition undo_onClick :: "Env \<Rightarrow> Canvas \<Rightarrow> error + Canvas" where
  "undo_onClick env s =
     thenE (getLastNNonEphemeralNode (trrack s) (length (undoStack s) + 1))
       (\<lambda>ephemeralNode.
          case getNode (trrack s) (currentNodeId (trrack s)) of
            None \<Rightarrow> Inl TypeError
          | Some current \<Rightarrow>
              (let currentNode = currentNodeId (trrack s)
               in if isStateNode current
                  then thenE (getState (trrack s) ephemeralNode)
                         (\<lambda>prevState. Inr (s
                            \<lparr>trrack := trrack_apply env ''undo'' (actions_undo (lines prevState)) True (trrack s),
                             c_lines := lines prevState,
                             undoStack := undoStack s @ [currentNode]\<rparr>))
                  else Inr s))"

text \<open>Line 251: \<^verbatim>\<open>disabled\<close> of the redo icon.\<close>

definition redo_disabled :: "Canvas \<Rightarrow> bool" where
  "redo_disabled s = (length (undoStack s) = 0)"

text \<open>
  Lines 252 to 257: \<^verbatim>\<open>onClick\<close> of the redo icon. On an empty stack the node looked up
  is \<^verbatim>\<open>undefined\<close>. The invocation is built with \<^verbatim>\<open>actions.undo\<close>.
\<close>

definition redo_onClick :: "Env \<Rightarrow> Canvas \<Rightarrow> error + Canvas" where
  "redo_onClick env s =
     (if undoStack s = [] then Inl TypeError
      else thenE (getState (trrack s) (last (undoStack s)))
             (\<lambda>newState. Inr (s
                \<lparr>trrack := trrack_apply env ''redo'' (actions_undo (lines newState)) True (trrack s),
                 c_lines := lines newState,
                 undoStack := butlast (undoStack s)\<rparr>)))"

text \<open>
  Lines 62 to 69: the effect that runs when the host supplies a \<^verbatim>\<open>provenanceState\<close>
  (a replay). Lines 207, 217 and 220: the toolbar sets \<^verbatim>\<open>tool\<close>, \<^verbatim>\<open>penSize\<close> and
  \<^verbatim>\<open>color\<close>.
\<close>

definition provenanceState_effect :: "KonvaState \<Rightarrow> Canvas \<Rightarrow> Canvas" where
  "provenanceState_effect provenanceState s =
     s\<lparr>c_lines := lines provenanceState,
       c_tool := orElse (tool provenanceState) ''pen'',
       c_penSize := orElse (penSize provenanceState) ''5'',
       c_color := orElse (color provenanceState) DEFAULT_THEME_colors_red_5\<rparr>"

definition setTool :: "string \<Rightarrow> Canvas \<Rightarrow> Canvas" where
  "setTool v s = s\<lparr>c_tool := v\<rparr>"

definition setPenSize :: "string \<Rightarrow> Canvas \<Rightarrow> Canvas" where
  "setPenSize v s = s\<lparr>c_penSize := v\<rparr>"

definition onColorChange :: "string \<Rightarrow> Canvas \<Rightarrow> Canvas" where
  "onColorChange c s = s\<lparr>c_color := c\<rparr>"

text \<open>
  The events the component reacts to, and a session as a sequence of them. A disabled
  icon delivers no click.
\<close>

datatype Event =
    MouseDown PointerEvent
  | MouseMove bool Env PointerEvent
  | ThrottleTrailing Env Lines
  | MouseUp Env
  | ClearClick Env
  | UndoClick Env
  | RedoClick Env
  | ToolChange string
  | PenSizeChange string
  | ColorChange string
  | ProvenanceState KonvaState

fun step :: "(string \<Rightarrow> number) \<Rightarrow> Event \<Rightarrow> Canvas \<Rightarrow> error + Canvas" where
  "step num (MouseDown e) s = handleMouseDown num e s"
| "step num (MouseMove throttleOpen env e) s = handleMouseMove throttleOpen env e s"
| "step num (ThrottleTrailing env l) s = Inr (debouncedApply_fn env l s)"
| "step num (MouseUp env) s = Inr (handleMouseUp env s)"
| "step num (ClearClick env) s = Inr (clear_onClick env s)"
| "step num (UndoClick env) s =
     thenE (undo_disabled s) (\<lambda>d. if d then Inr s else undo_onClick env s)"
| "step num (RedoClick env) s = (if redo_disabled s then Inr s else redo_onClick env s)"
| "step num (ToolChange v) s = Inr (setTool v s)"
| "step num (PenSizeChange v) s = Inr (setPenSize v s)"
| "step num (ColorChange c) s = Inr (onColorChange c s)"
| "step num (ProvenanceState provenanceState) s = Inr (provenanceState_effect provenanceState s)"

fun run :: "(string \<Rightarrow> number) \<Rightarrow> Event list \<Rightarrow> Canvas \<Rightarrow> error + Canvas" where
  "run num [] s = Inr s"
| "run num (ev # evs) s = thenE (step num ev s) (run num evs)"


text \<open>
  A burst of pointer moves: calls of the pointer-move handler and deferred runs of the
  throttled body. \<open>eventIds\<close> lists the ids the events of a session may give to new
  nodes.
\<close>


fun isBurstEvent :: "Event \<Rightarrow> bool" where
  "isBurstEvent (MouseMove throttleOpen env e) = True"
| "isBurstEvent (ThrottleTrailing env l) = True"
| "isBurstEvent ev = False"

fun eventId :: "Event \<Rightarrow> NodeId list" where
  "eventId (MouseDown e) = []"
| "eventId (MouseMove throttleOpen env e) = [newId env]"
| "eventId (ThrottleTrailing env l) = [newId env]"
| "eventId (MouseUp env) = [newId env]"
| "eventId (ClearClick env) = [newId env]"
| "eventId (UndoClick env) = [newId env]"
| "eventId (RedoClick env) = [newId env]"
| "eventId ev = []"

definition eventIds :: "Event list \<Rightarrow> NodeId list" where
  "eventIds evs = concat (map eventId evs)"

section \<open>The throttle in front of apply\<close>

text \<open>
  Modelled from the spec: \<^verbatim>\<open>throttle\<close> is imported from \<^verbatim>\<open>lodash.throttle\<close> (line 21), which
  is not among the sources. Section 5 of the spec: pointer moves are rate-limited before
  reaching \<open>apply\<close>, with a minimum spacing between calls. The library's documentation of
  \<^verbatim>\<open>throttle(func, wait)\<close>: the throttled function invokes \<^verbatim>\<open>func\<close> at most once per every
  \<^verbatim>\<open>wait\<close> milliseconds; by default \<^verbatim>\<open>func\<close> is invoked on the leading and on the trailing
  edge of the wait; on the trailing edge only if the throttled function was called again
  during the wait, and with the last arguments given to it. The state of the throttle is
  the time of its last invocation of \<^verbatim>\<open>func\<close> (none before the first) and the arguments
  of a call it has deferred. Line 139 gives the wait, 50 ms. The component makes one
  throttle for its lifetime (\<^verbatim>\<open>useMemo\<close> on \<^verbatim>\<open>[actions, trrack]\<close>, which never change).
\<close>

record Throttle =
  lastInvoke :: "nat option"
  deferred :: "Lines option"

definition throttle_wait :: nat where
  "throttle_wait = 50"

definition throttle_fresh :: Throttle where
  "throttle_fresh = \<lparr>lastInvoke = None, deferred = None\<rparr>"

text \<open>
  Modelled from the spec: the throttle invokes at time \<open>t\<close> only if it has not invoked
  before or a full wait has passed since its last invocation.
\<close>

definition throttleOpen :: "Throttle \<Rightarrow> nat \<Rightarrow> bool" where
  "throttleOpen th t =
     (case lastInvoke th of None \<Rightarrow> True | Some t0 \<Rightarrow> t0 + throttle_wait \<le> t)"

text \<open>
  Lines 137 to 139, \<^verbatim>\<open>debouncedApply\<close>: a call of the throttled function at time
  \<open>now env\<close>. Modelled from the spec: on an open throttle the body runs at once (leading
  edge) and a new wait starts; otherwise the arguments are kept for the trailing edge,
  replacing those of an earlier deferred call.
\<close>

definition debouncedApply :: "Env \<Rightarrow> Lines \<Rightarrow> Canvas \<times> Throttle \<Rightarrow> Canvas \<times> Throttle" where
  "debouncedApply env l c =
     (if throttleOpen (snd c) (now env)
      then (debouncedApply_fn env l (fst c), \<lparr>lastInvoke = Some (now env), deferred = None\<rparr>)
      else (fst c, (snd c)\<lparr>deferred := Some l\<rparr>))"

text \<open>
  Modelled from the spec: the throttle's timer, at time \<open>now env\<close>. At the end of the wait
  a deferred call runs the body with the arguments kept (trailing edge), on the graph as
  it is then, and a new wait starts. With no deferred call, or before the end of the
  wait, nothing happens.
\<close>

definition throttle_timerExpired :: "Env \<Rightarrow> Canvas \<times> Throttle \<Rightarrow> Canvas \<times> Throttle" where
  "throttle_timerExpired env c =
     (case deferred (snd c) of
        None \<Rightarrow> c
      | Some l \<Rightarrow>
          (if throttleOpen (snd c) (now env)
           then (debouncedApply_fn env l (fst c), \<lparr>lastInvoke = Some (now env), deferred = None\<rparr>)
           else c))"

text \<open>
  Lines 151 to 176 again, with the call of \<^verbatim>\<open>debouncedApply\<close> on line 175 going through
  the throttle instead of taking its decision as an argument. A pointer move outside a
  stroke returns on line 159 and does not reach the throttle.
\<close>

definition handleMouseMove_throttled ::
  "Env \<Rightarrow> PointerEvent \<Rightarrow> Canvas \<times> Throttle \<Rightarrow> error + Canvas \<times> Throttle" where
  "handleMouseMove_throttled env e c =
     thenE (if c_tool (fst c) = ''eraser''
            then (case e of
                    NoStage \<Rightarrow> Inl TypeError
                  | Stage None \<Rightarrow> Inl TypeError
                  | Stage (Some pos) \<Rightarrow> Inr ((fst c)\<lparr>mousePos := pos\<rparr>))
            else Inr (fst c))
       (\<lambda>s1. if \<not> isDrawing s1 then Inr (s1, snd c)
              else
                (case e of
                   NoStage \<Rightarrow> Inl TypeError
                 | Stage None \<Rightarrow> Inl TypeError
                 | Stage (Some point) \<Rightarrow>
                     (if c_lines s1 = [] then Inl TypeError
                      else
                        (let lastLine = last (c_lines s1);
                             lastLine' = lastLine\<lparr>points := points lastLine @ [fst point, snd point]\<rparr>;
                             lines' = butlast (c_lines s1) @ [lastLine'];
                             s2 = s1\<lparr>c_lines := lines', undoStack := []\<rparr>
                         in Inr (debouncedApply env lines' (s2, snd c))))))"

text \<open>
  A session with its clock: pointer moves and runs of the throttle's timer carry their
  time; every other event is one of the untimed session and leaves the throttle alone.
  \<open>isTimed\<close> excludes the two events of the untimed session that stand for the throttle
  (a pointer move with the throttle's decision given, a deferred run of the body).
\<close>

datatype TimedEvent =
    PointerMove Env PointerEvent
  | TimerExpired Env
  | Untimed Event

fun timedStep ::
  "(string \<Rightarrow> number) \<Rightarrow> TimedEvent \<Rightarrow> Canvas \<times> Throttle \<Rightarrow> error + Canvas \<times> Throttle" where
  "timedStep num (PointerMove env e) c = handleMouseMove_throttled env e c"
| "timedStep num (TimerExpired env) c = Inr (throttle_timerExpired env c)"
| "timedStep num (Untimed ev) c = thenE (step num ev (fst c)) (\<lambda>s'. Inr (s', snd c))"

fun timedRun ::
  "(string \<Rightarrow> number) \<Rightarrow> TimedEvent list \<Rightarrow> Canvas \<times> Throttle \<Rightarrow> error + Canvas \<times> Throttle" where
  "timedRun num [] c = Inr c"
| "timedRun num (ev # evs) c = thenE (timedStep num ev c) (timedRun num evs)"

fun isTimed :: "TimedEvent \<Rightarrow> bool" where
  "isTimed (Untimed ev) = (\<not> isBurstEvent ev)"
| "isTimed ev = True"

fun isPointerSample :: "TimedEvent \<Rightarrow> bool" where
  "isPointerSample (Untimed ev) = False"
| "isPointerSample ev = True"

text \<open>
  The nodes of pointer-move drawing are those applied with the label \<^verbatim>\<open>'drawing'\<close>, which
  only line 138 uses. \<open>goodDraw\<close>: the node is ephemeral and its invocation names the
  \<open>draw\<close> mutator. \<open>spaced w ts\<close>: each time of the list is at least \<open>w\<close> after the one
  before it. \<open>since th\<close>: the time of the throttle's last invocation, as a list.
\<close>

definition isDrawNode :: "HistoryNode \<Rightarrow> bool" where
  "isDrawNode n = (label n = ''drawing'')"

definition drawNodes :: "(NodeId \<times> HistoryNode) list \<Rightarrow> HistoryNode list" where
  "drawNodes ns = filter isDrawNode (map snd ns)"

definition goodDraw :: "HistoryNode \<Rightarrow> bool" where
  "goodDraw n = (kind n = Ephemeral \<and> map_option mutatorName (invocation n) = Some ''draw'')"

fun spaced :: "nat \<Rightarrow> nat list \<Rightarrow> bool" where
  "spaced w [] = True"
| "spaced w [t] = True"
| "spaced w (t # u # ts) = (t + w \<le> u \<and> spaced w (u # ts))"

definition since :: "Throttle \<Rightarrow> nat list" where
  "since th = (case lastInvoke th of None \<Rightarrow> [] | Some t0 \<Rightarrow> [t0])"

section \<open>A concrete session\<close>

text \<open>
  One session, used to run the handlers on explicit inputs: mount without a stored
  answer; one stroke (pointer down at (1,1), one pointer move to (2,2) that the throttle
  lets through, pointer up); \<^verbatim>\<open>Clear all\<close>; undo. The environment hands out the node
  ids \<open>n0\<close>, \<open>n1\<close>, ... in this order.
\<close>

definition env0 :: Env where
  "env0 = \<lparr>newId = ''n0'', now = 0\<rparr>"

definition env1 :: Env where
  "env1 = \<lparr>newId = ''n1'', now = 1\<rparr>"

definition env2 :: Env where
  "env2 = \<lparr>newId = ''n2'', now = 2\<rparr>"

definition env3 :: Env where
  "env3 = \<lparr>newId = ''n3'', now = 3\<rparr>"

definition env4 :: Env where
  "env4 = \<lparr>newId = ''n4'', now = 4\<rparr>"

definition env5 :: Env where
  "env5 = \<lparr>newId = ''n5'', now = 5\<rparr>"

definition ex_root :: HistoryNode where
  "ex_root = \<lparr>parentId = None, label = ''Root'', invocation = None, kind = Durable, timestamp = 0\<rparr>"

definition ex_mounted :: Canvas where
  "ex_mounted =
     \<lparr>c_tool = ''pen'', c_penSize = ''5'', c_lines = [],
      c_color = DEFAULT_THEME_colors_red_5, mousePos = (0, 0), isDrawing = False,
      undoStack = [], trrack = initializeTrrack env0 initialState, answer = None\<rparr>"

definition ex_line :: Line where
  "ex_line = \<lparr>line_tool = ''pen'', points = [1, 1, 2, 2], width = 5,
              line_color = DEFAULT_THEME_colors_red_5\<rparr>"

definition ex_moved :: Canvas where
  "ex_moved =
     debouncedApply_fn env1 [ex_line] (ex_mounted\<lparr>c_lines := [ex_line], isDrawing := True\<rparr>)"

definition ex_drawn :: Canvas where
  "ex_drawn = handleMouseUp env2 ex_moved"

definition ex_cleared :: Canvas where
  "ex_cleared = clear_onClick env3 ex_drawn"

definition ex_undone :: Canvas where
  "ex_undone = ex_cleared
     \<lparr>trrack := trrack_apply env4 ''undo'' (actions_undo [ex_line]) True (trrack ex_cleared),
      c_lines := [ex_line], undoStack := [''n3'']\<rparr>"

definition ex_state :: KonvaState where
  "ex_state = initialState\<lparr>lines := [ex_line]\<rparr>"

text \<open>
  A second stroke after the first one: pointer down at (3,3), a pointer move that the
  throttle lets through, one that it defers, the deferred run of the throttled body,
  pointer up.
\<close>

definition env6 :: Env where
  "env6 = \<lparr>newId = ''n6'', now = 6\<rparr>"

definition env7 :: Env where
  "env7 = \<lparr>newId = ''n7'', now = 7\<rparr>"

definition ex_dot :: Line where
  "ex_dot = \<lparr>line_tool = ''pen'', points = [3, 3], width = 5,
             line_color = DEFAULT_THEME_colors_red_5\<rparr>"

definition ex_down2 :: Canvas where
  "ex_down2 = ex_drawn\<lparr>isDrawing := True, c_lines := [ex_line, ex_dot]\<rparr>"

definition ex_rest :: "Event list" where
  "ex_rest =
     [MouseMove False env4 (Stage (Some (5, 5))),
      ThrottleTrailing env5 [ex_line, ex_dot\<lparr>points := [3, 3, 4, 4, 5, 5]\<rparr>]]"

definition ex_burst :: Canvas where
  "ex_burst =
     debouncedApply_fn env5 [ex_line, ex_dot\<lparr>points := [3, 3, 4, 4, 5, 5]\<rparr>]
       ((debouncedApply_fn env3 [ex_line, ex_dot\<lparr>points := [3, 3, 4, 4]\<rparr>] ex_down2)
          \<lparr>c_lines := [ex_line, ex_dot\<lparr>points := [3, 3, 4, 4, 5, 5]\<rparr>]\<rparr>)"

definition ex_stroke2 :: Canvas where
  "ex_stroke2 = handleMouseUp env6 ex_burst"

definition ex_drawEnd2 :: HistoryNode where
  "ex_drawEnd2 =
     \<lparr>parentId = Some ''n5'', label = ''draw end'',
      invocation = Some \<lparr>mutatorName = ''drawEnd'',
        parameters = [ex_line, ex_dot\<lparr>points := [3, 3, 4, 4, 5, 5]\<rparr>]\<rparr>,
      kind = Durable, timestamp = 6\<rparr>"

text \<open>
  What a host may hold at the next start: an entry without a stored graph and the graph
  handed over at the end of the first stroke; and a stored graph whose root state has an
  empty \<open>penSize\<close>.
\<close>

definition ex_answers :: "(string \<times> StoredAnswer) list" where
  "ex_answers =
     [(''other_0'', \<lparr>stimulus = None\<rparr>), (''canvas_1'', \<lparr>stimulus = Some (trrack ex_drawn)\<rparr>)]"

definition ex_stored :: ProvenanceGraph where
  "ex_stored =
     \<lparr>nodes = [(''r'', ex_root)],
      rootState = \<lparr>lines = [ex_line], tool = ''eraser'', color = ''#000000'', penSize = []\<rparr>,
      currentNodeId = ''r''\<rparr>"

definition ex_resumed :: Canvas where
  "ex_resumed =
     \<lparr>c_tool = ''eraser'', c_penSize = ''5'', c_lines = [ex_line], c_color = ''#000000'',
      mousePos = (0, 0), isDrawing = False, undoStack = [], trrack = ex_stored, answer = None\<rparr>"

text \<open>
  Two continuations of the session after the undo, each with one durable apply: a second
  \<^verbatim>\<open>Clear all\<close>; and a deferred run of the throttled body followed by a pointer up.
\<close>

definition ex_recleared :: Canvas where
  "ex_recleared = clear_onClick env5 ex_undone"

definition ex_deferred_up :: Canvas where
  "ex_deferred_up = handleMouseUp env6 (debouncedApply_fn env5 [ex_line] ex_undone)"


text \<open>
  The second stroke with its clock: after the pointer down, a pointer move at time 100
  (the throttle has not invoked before), a pointer move at time 120 (inside the wait:
  deferred), the throttle's timer at time 150. The ids are those of the environments.
\<close>

definition env100 :: Env where
  "env100 = \<lparr>newId = ''n3'', now = 100\<rparr>"

definition env120 :: Env where
  "env120 = \<lparr>newId = ''n4'', now = 120\<rparr>"

definition env150 :: Env where
  "env150 = \<lparr>newId = ''n5'', now = 150\<rparr>"

definition ex_samples :: "TimedEvent list" where
  "ex_samples =
     [PointerMove env100 (Stage (Some (4, 4))), PointerMove env120 (Stage (Some (5, 5))),
      TimerExpired env150]"

definition ex_sampled :: Canvas where
  "ex_sampled =
     debouncedApply_fn env150 [ex_line, ex_dot\<lparr>points := [3, 3, 4, 4, 5, 5]\<rparr>]
       ((debouncedApply_fn env100 [ex_line, ex_dot\<lparr>points := [3, 3, 4, 4]\<rparr>] ex_down2)
          \<lparr>c_lines := [ex_line, ex_dot\<lparr>points := [3, 3, 4, 4, 5, 5]\<rparr>]\<rparr>)"

definition ex_draws :: "(NodeId \<times> HistoryNode) list" where
  "ex_draws =
     [(''n3'', \<lparr>parentId = Some ''n2'', label = ''drawing'',
         invocation = Some \<lparr>mutatorName = ''draw'',
           parameters = [ex_line, ex_dot\<lparr>points := [3, 3, 4, 4]\<rparr>]\<rparr>,
         kind = Ephemeral, timestamp = 100\<rparr>),
      (''n5'', \<lparr>parentId = Some ''n3'', label = ''drawing'',
         invocation = Some \<lparr>mutatorName = ''draw'',
           parameters = [ex_line, ex_dot\<lparr>points := [3, 3, 4, 4, 5, 5]\<rparr>]\<rparr>,
         kind = Ephemeral, timestamp = 150\<rparr>)]"

section \<open>Basic facts\<close>

lemmas ex_defs = env0_def env1_def env2_def env3_def env4_def env5_def ex_root_def
  ex_mounted_def ex_line_def ex_moved_def ex_drawn_def ex_cleared_def ex_undone_def ex_state_def
  env6_def env7_def ex_dot_def ex_down2_def ex_rest_def ex_burst_def ex_stroke2_def ex_drawEnd2_def
  ex_answers_def ex_stored_def ex_resumed_def ex_recleared_def ex_deferred_up_def

lemmas model_defs = Canvas_mount_def initializeTrrack_def initialState_def handleMouseDown_def
  handleMouseMove_def handleMouseUp_def debouncedApply_fn_def clear_onClick_def undo_onClick_def
  undo_disabled_def redo_onClick_def redo_disabled_def trrack_apply_def getState_def
  resolveState_def getLastNNonEphemeralNode_def getNode_def isRootNode_def isStateNode_def
  thenE_def registry_def actions_draw_def actions_drawEnd_def actions_clear_def actions_undo_def
  actions_redo_def handle_def draw_fn_def drawEnd_fn_def clear_fn_def undo_fn_def redo_fn_def
  orElse_def startsWith_def importObject_def wellFormed_def isOK_def Let_def
  provenanceState_effect_def setTool_def setPenSize_def onColorChange_def

lemma registrations_registry: "registrations = Inr registry"
  by (simp add: registrations_def registry_def register_def Registry_create_def thenE_def)

lemma clear_registered: "map_of registry ''clear'' = Some clear_fn"
  by (simp add: registry_def)

lemma drawEnd_registered: "map_of registry ''drawEnd'' = Some drawEnd_fn"
  by (simp add: registry_def)

lemma draw_registered: "map_of registry ''draw'' = Some draw_fn"
  by (simp add: registry_def)

lemma undo_registered: "map_of registry ''undo'' = Some undo_fn"
  by (simp add: registry_def)

lemma isOK_iff: "isOK r \<longleftrightarrow> (\<exists>a. r = Inr a)"
  by (cases r) (simp_all add: isOK_def)

text \<open>The concrete session is a run of the handlers.\<close>

lemma ex_mounted_run: "Canvas_mount env0 [] [] = Inr ex_mounted"
  by (simp add: ex_defs model_defs)

lemma ex_drawn_run:
  "run (\<lambda>s. 5)
     [MouseDown (Stage (Some (1, 1))), MouseMove True env1 (Stage (Some (2, 2))), MouseUp env2]
     ex_mounted = Inr ex_drawn"
  by (simp add: ex_defs model_defs)

lemma ex_undone_run: "run (\<lambda>s. 5) [ClearClick env3, UndoClick env4] ex_drawn = Inr ex_undone"
  by (simp add: ex_defs model_defs)

lemma ex_stroke2_run:
  "run (\<lambda>s. 5)
     ([MouseDown (Stage (Some (3, 3))), MouseMove True env3 (Stage (Some (4, 4)))] @ ex_rest @
      [MouseUp env6])
     ex_drawn = Inr ex_stroke2"
  by (simp add: ex_defs model_defs)

lemma ex_recleared_run:
  "run (\<lambda>s. 5) [ClearClick env3, UndoClick env4, ClearClick env5] ex_drawn = Inr ex_recleared"
  by (simp add: ex_defs model_defs)

lemma ex_deferred_up_run:
  "run (\<lambda>s. 5) [ClearClick env3, UndoClick env4, ThrottleTrailing env5 [ex_line], MouseUp env6]
     ex_drawn = Inr ex_deferred_up"
  by (simp add: ex_defs model_defs)


section \<open>Walking the parent links\<close>

lemma ancestry_Suc_iff:
  "ancestry (Suc f) ns i = Inr ch \<longleftrightarrow>
     (\<exists>n. map_of ns i = Some n \<and>
          (case parentId n of
             None \<Rightarrow> ch = [(i, n)]
           | Some p \<Rightarrow> \<exists>ch'. ancestry f ns p = Inr ch' \<and> ch = (i, n) # ch'))"
  by (auto split: option.splits sum.splits)

lemma ancestry_zero: "ancestry 0 ns i \<noteq> Inr ch"
  by simp

lemma ancestry_Suc: "ancestry f ns i = Inr ch \<Longrightarrow> ancestry (Suc f) ns i = Inr ch"
proof (induction f arbitrary: i ch)
  case 0
  then show ?case by simp
next
  case (Suc f)
  from Suc.prems obtain n where n: "map_of ns i = Some n"
    and c: "case parentId n of None \<Rightarrow> ch = [(i, n)]
            | Some p \<Rightarrow> \<exists>ch'. ancestry f ns p = Inr ch' \<and> ch = (i, n) # ch'"
    unfolding ancestry_Suc_iff by blast
  show ?case
  proof (cases "parentId n")
    case None
    with n c show ?thesis unfolding ancestry_Suc_iff [of "Suc f"] by simp
  next
    case (Some p)
    with c obtain ch' where a: "ancestry f ns p = Inr ch'" and ch: "ch = (i, n) # ch'"
      by auto
    from Suc.IH [OF a] have "ancestry (Suc f) ns p = Inr ch'" .
    with n Some ch show ?thesis unfolding ancestry_Suc_iff [of "Suc f"] by simp
  qed
qed

lemma ancestry_mono: "ancestry f ns i = Inr ch \<Longrightarrow> ancestry (f + k) ns i = Inr ch"
  by (induction k) (simp_all only: add_0_right add_Suc_right ancestry_Suc)

lemma map_of_append_Some: "map_of ns i = Some n \<Longrightarrow> map_of (ns @ ms) i = Some n"
  by (simp add: map_add_Some_iff)

lemma ancestry_append: "ancestry f ns i = Inr ch \<Longrightarrow> ancestry f (ns @ ms) i = Inr ch"
proof (induction f arbitrary: i ch)
  case 0
  then show ?case by simp
next
  case (Suc f)
  from Suc.prems obtain n where n: "map_of ns i = Some n"
    and c: "case parentId n of None \<Rightarrow> ch = [(i, n)]
            | Some p \<Rightarrow> \<exists>ch'. ancestry f ns p = Inr ch' \<and> ch = (i, n) # ch'"
    unfolding ancestry_Suc_iff by blast
  from n have n': "map_of (ns @ ms) i = Some n" by (rule map_of_append_Some)
  show ?case
  proof (cases "parentId n")
    case None
    with n' c show ?thesis unfolding ancestry_Suc_iff by simp
  next
    case (Some p)
    with c obtain ch' where a: "ancestry f ns p = Inr ch'" and ch: "ch = (i, n) # ch'"
      by auto
    from Suc.IH [OF a] have "ancestry f (ns @ ms) p = Inr ch'" .
    with n' Some ch show ?thesis unfolding ancestry_Suc_iff by simp
  qed
qed

lemma ancestry_head:
  "ancestry f ns i = Inr ch \<Longrightarrow> \<exists>n rest. ch = (i, n) # rest \<and> map_of ns i = Some n"
  by (cases f) (auto simp del: ancestry.simps(2) simp: ancestry_Suc_iff split: option.splits)

section \<open>Replaying the mutators\<close>

lemma replay_append:
  "replay reg st (xs @ ys) = thenE (replay reg st xs) (\<lambda>st'. replay reg st' ys)"
  by (induction xs arbitrary: st) (auto simp: thenE_def split: option.splits)

lemma replay_prefix_ok:
  "replay reg st (xs @ ys) = Inr st2 \<Longrightarrow> \<exists>st1. replay reg st xs = Inr st1"
  by (cases "replay reg st xs") (simp_all add: replay_append thenE_def)

lemma registry_frame:
  "map_of registry name = Some m \<Longrightarrow>
   tool (m st p) = tool st \<and> color (m st p) = color st \<and> penSize (m st p) = penSize st"
  by (auto simp: registry_def draw_fn_def drawEnd_fn_def clear_fn_def undo_fn_def redo_fn_def
      split: if_splits)

lemma replay_frame:
  "replay registry st ns = Inr st' \<Longrightarrow>
   tool st' = tool st \<and> color st' = color st \<and> penSize st' = penSize st"
proof (induction ns arbitrary: st)
  case Nil
  then show ?case by simp
next
  case (Cons n ns)
  show ?case
  proof (cases "invocation n")
    case None
    with Cons show ?thesis by simp
  next
    case (Some action)
    with Cons.prems obtain m where m: "map_of registry (mutatorName action) = Some m"
      and r: "replay registry (m st (parameters action)) ns = Inr st'"
      by (auto split: option.splits)
    from Cons.IH [OF r] registry_frame [OF m] show ?thesis by simp
  qed
qed

lemma getState_frame:
  "getState g i = Inr st \<Longrightarrow>
   tool st = tool (rootState g) \<and> color st = color (rootState g) \<and> penSize st = penSize (rootState g)"
  by (auto simp: getState_def resolveState_def thenE_def split: sum.splits dest: replay_frame)

lemma getState_Inr_iff:
  "getState g i = Inr st \<longleftrightarrow>
     (\<exists>ch. ancestry (length (nodes g)) (nodes g) i = Inr ch \<and>
           replay registry (rootState g) (rev (map snd ch)) = Inr st)"
  by (auto simp: getState_def resolveState_def thenE_def split: sum.splits)

lemma ancestry_member:
  "ancestry f ns i = Inr ch \<Longrightarrow> t \<in> fst ` set ch \<Longrightarrow>
   \<exists>pre post. ch = pre @ post \<and> ancestry f ns t = Inr post"
proof (induction f arbitrary: i ch)
  case 0
  then show ?case by simp
next
  case (Suc f)
  show ?case
  proof (cases "t = i")
    case True
    with Suc.prems(1) show ?thesis by (intro exI [of _ "[]"] exI [of _ ch]) simp
  next
    case False
    from Suc.prems(1) obtain n where n: "map_of ns i = Some n"
      and c: "case parentId n of None \<Rightarrow> ch = [(i, n)]
              | Some p \<Rightarrow> \<exists>ch'. ancestry f ns p = Inr ch' \<and> ch = (i, n) # ch'"
      unfolding ancestry_Suc_iff by blast
    show ?thesis
    proof (cases "parentId n")
      case None
      with c Suc.prems(2) False show ?thesis by simp
    next
      case (Some p)
      with c obtain ch' where a: "ancestry f ns p = Inr ch'" and ch: "ch = (i, n) # ch'"
        by auto
      from Suc.prems(2) ch False have "t \<in> fst ` set ch'" by auto
      from Suc.IH [OF a this] obtain pre post where
        "ch' = pre @ post" "ancestry f ns t = Inr post" by blast
      then have "ch = ((i, n) # pre) @ post" "ancestry (Suc f) ns t = Inr post"
        using ch by (simp_all only: ancestry_Suc append_Cons)
      then show ?thesis by blast
    qed
  qed
qed

lemma getState_member:
  assumes "getState g i = Inr st"
    and "ancestry (length (nodes g)) (nodes g) i = Inr ch" and "t \<in> fst ` set ch"
  shows "\<exists>st'. getState g t = Inr st'"
proof -
  from assms(1,2) have r: "replay registry (rootState g) (rev (map snd ch)) = Inr st"
    by (simp add: getState_Inr_iff)
  from ancestry_member [OF assms(2,3)] obtain pre post where
    ch: "ch = pre @ post" and a: "ancestry (length (nodes g)) (nodes g) t = Inr post" by blast
  from r ch have "replay registry (rootState g) (rev (map snd post) @ rev (map snd pre)) = Inr st"
    by simp
  from replay_prefix_ok [OF this] obtain st1 where
    "replay registry (rootState g) (rev (map snd post)) = Inr st1" ..
  with a show ?thesis by (auto simp: getState_Inr_iff)
qed

section \<open>Skipping ephemeral nodes\<close>

lemma findLast_Suc_eq:
  "map_of ns i = Some n \<Longrightarrow>
   findLastNonEphemeralAncestor (Suc f) ns i k =
     (case parentId n of
        None \<Rightarrow> Inr i
      | Some p \<Rightarrow>
          (if kind n = Durable
           then (if k = 0 then Inr i else findLastNonEphemeralAncestor f ns p (k - 1))
           else findLastNonEphemeralAncestor f ns p k))"
  by simp

lemma findLast_total:
  "ancestry f ns i = Inr ch \<Longrightarrow>
   \<exists>t n. findLastNonEphemeralAncestor f ns i k = Inr t \<and> (t, n) \<in> set ch \<and>
         (kind n = Durable \<or> parentId n = None)"
proof (induction f arbitrary: i ch k)
  case 0
  then show ?case by simp
next
  case (Suc f)
  from Suc.prems(1) obtain n where n: "map_of ns i = Some n"
    and c: "case parentId n of None \<Rightarrow> ch = [(i, n)]
            | Some p \<Rightarrow> \<exists>ch'. ancestry f ns p = Inr ch' \<and> ch = (i, n) # ch'"
    unfolding ancestry_Suc_iff by blast
  show ?case
  proof (cases "parentId n")
    case None
    with n c show ?thesis by (simp only: findLast_Suc_eq [OF n]) auto
  next
    case (Some p)
    with c obtain ch' where a: "ancestry f ns p = Inr ch'" and ch: "ch = (i, n) # ch'"
      by auto
    show ?thesis
    proof (cases "kind n = Durable \<and> k = 0")
      case True
      with Some ch show ?thesis by (simp only: findLast_Suc_eq [OF n]) auto
    next
      case False
      define k' where "k' = (if kind n = Durable then k - 1 else k)"
      from False Some have e: "findLastNonEphemeralAncestor (Suc f) ns i k =
          findLastNonEphemeralAncestor f ns p k'"
        by (simp only: findLast_Suc_eq [OF n] k'_def) auto
      from Suc.IH [OF a, of k'] obtain t m where
        "findLastNonEphemeralAncestor f ns p k' = Inr t" "(t, m) \<in> set ch'"
        "kind m = Durable \<or> parentId m = None" by blast
      with e ch have "findLastNonEphemeralAncestor (Suc f) ns i k = Inr t \<and> (t, m) \<in> set ch \<and>
          (kind m = Durable \<or> parentId m = None)" by simp
      then show ?thesis by blast
    qed
  qed
qed

lemma findLast_Inr_lookup:
  "findLastNonEphemeralAncestor f ns i k = Inr t \<Longrightarrow> \<exists>n. map_of ns i = Some n"
  by (cases f) (auto split: option.splits)

lemma findLast_Suc:
  "findLastNonEphemeralAncestor f ns i k = Inr t \<Longrightarrow>
   findLastNonEphemeralAncestor (Suc f) ns i k = Inr t"
proof (induction f arbitrary: i k)
  case 0
  then show ?case by simp
next
  case (Suc f)
  from findLast_Inr_lookup [OF Suc.prems] obtain n where n: "map_of ns i = Some n" ..
  show ?case
  proof (cases "parentId n")
    case None
    with Suc.prems show ?thesis by (simp only: findLast_Suc_eq [OF n]) simp
  next
    case (Some p)
    define k' where "k' = (if kind n = Durable then k - 1 else k)"
    show ?thesis
    proof (cases "kind n = Durable \<and> k = 0")
      case True
      with Some Suc.prems show ?thesis by (simp only: findLast_Suc_eq [OF n]) simp
    next
      case False
      with Some have e: "\<And>f. findLastNonEphemeralAncestor (Suc f) ns i k =
          findLastNonEphemeralAncestor f ns p k'"
        by (simp only: findLast_Suc_eq [OF n] k'_def) auto
      from Suc.prems have "findLastNonEphemeralAncestor f ns p k' = Inr t"
        by (simp only: e)
      from Suc.IH [OF this] show ?thesis by (simp only: e)
    qed
  qed
qed

lemma findLast_append:
  "findLastNonEphemeralAncestor f ns i k = Inr t \<Longrightarrow>
   findLastNonEphemeralAncestor f (ns @ ms) i k = Inr t"
proof (induction f arbitrary: i k)
  case 0
  then show ?case by simp
next
  case (Suc f)
  from findLast_Inr_lookup [OF Suc.prems] obtain n where n: "map_of ns i = Some n" ..
  then have n': "map_of (ns @ ms) i = Some n" by (rule map_of_append_Some)
  show ?case
  proof (cases "parentId n")
    case None
    with Suc.prems show ?thesis
      by (simp only: findLast_Suc_eq [OF n] findLast_Suc_eq [OF n']) simp
  next
    case (Some p)
    define k' where "k' = (if kind n = Durable then k - 1 else k)"
    show ?thesis
    proof (cases "kind n = Durable \<and> k = 0")
      case True
      with Some Suc.prems show ?thesis
        by (simp only: findLast_Suc_eq [OF n] findLast_Suc_eq [OF n']) simp
    next
      case False
      with Some have e: "findLastNonEphemeralAncestor (Suc f) ns i k =
          findLastNonEphemeralAncestor f ns p k'"
        by (simp only: findLast_Suc_eq [OF n] k'_def) auto
      from False Some have e': "findLastNonEphemeralAncestor (Suc f) (ns @ ms) i k =
          findLastNonEphemeralAncestor f (ns @ ms) p k'"
        by (simp only: findLast_Suc_eq [OF n'] k'_def) auto
      from Suc.prems have "findLastNonEphemeralAncestor f ns p k' = Inr t"
        by (simp only: e)
      from Suc.IH [OF this] show ?thesis by (simp only: e')
    qed
  qed
qed

section \<open>Appending a node\<close>

lemma map_of_snoc_fresh: "i \<notin> fst ` set ns \<Longrightarrow> map_of (ns @ [(i, n)]) i = Some n"
proof -
  assume "i \<notin> fst ` set ns"
  then have "map_of ns i = None" by (simp add: map_of_eq_None_iff)
  then show ?thesis by (simp add: map_add_def)
qed

lemma nodes_apply:
  "nodes (trrack_apply env lbl action e g) =
     nodes g @ [(newId env, \<lparr>parentId = Some (currentNodeId g), label = lbl,
       invocation = Some action, kind = (if e then Ephemeral else Durable),
       timestamp = now env\<rparr>)]"
  by (simp add: trrack_apply_def)

lemma current_apply: "currentNodeId (trrack_apply env lbl action e g) = newId env"
  by (simp add: trrack_apply_def)

lemma rootState_apply: "rootState (trrack_apply env lbl action e g) = rootState g"
  by (simp add: trrack_apply_def)

lemma getNode_apply_old:
  "getNode g i = Some n \<Longrightarrow> getNode (trrack_apply env lbl action e g) i = Some n"
  by (simp add: getNode_def nodes_apply map_of_append_Some del: map_of_append)

lemma ancestry_apply_new:
  assumes fresh: "newId env \<notin> fst ` set (nodes g)"
    and a: "ancestry (length (nodes g)) (nodes g) (currentNodeId g) = Inr ch"
  shows "ancestry (length (nodes (trrack_apply env lbl action e g)))
           (nodes (trrack_apply env lbl action e g)) (newId env) =
         Inr ((newId env, \<lparr>parentId = Some (currentNodeId g), label = lbl,
                invocation = Some action, kind = (if e then Ephemeral else Durable),
                timestamp = now env\<rparr>) # ch)"
proof -
  let ?n = "\<lparr>parentId = Some (currentNodeId g), label = lbl, invocation = Some action,
             kind = (if e then Ephemeral else Durable), timestamp = now env\<rparr>"
  let ?ns = "nodes g @ [(newId env, ?n)]"
  have l: "map_of ?ns (newId env) = Some ?n" using fresh by (rule map_of_snoc_fresh)
  have "ancestry (length (nodes g)) ?ns (currentNodeId g) = Inr ch"
    using a by (rule ancestry_append)
  with l have "ancestry (Suc (length (nodes g))) ?ns (newId env) = Inr ((newId env, ?n) # ch)"
    unfolding ancestry_Suc_iff by simp
  then show ?thesis by (simp only: nodes_apply length_append list.size) simp
qed

lemma getState_apply_new:
  assumes fresh: "newId env \<notin> fst ` set (nodes g)"
    and st: "getState g (currentNodeId g) = Inr st"
    and m: "map_of registry (mutatorName action) = Some m"
  shows "getState (trrack_apply env lbl action e g) (newId env) = Inr (m st (parameters action))"
proof -
  from st obtain ch where a: "ancestry (length (nodes g)) (nodes g) (currentNodeId g) = Inr ch"
    and r: "replay registry (rootState g) (rev (map snd ch)) = Inr st"
    unfolding getState_Inr_iff by blast
  show ?thesis
    unfolding getState_Inr_iff
    by (rule exI, rule conjI, rule ancestry_apply_new [OF fresh a])
      (simp add: replay_append r thenE_def m rootState_apply)
qed

lemma getState_apply_old:
  assumes st: "getState g i = Inr st"
  shows "getState (trrack_apply env lbl action e g) i = Inr st"
proof -
  from st obtain ch where a: "ancestry (length (nodes g)) (nodes g) i = Inr ch"
    and r: "replay registry (rootState g) (rev (map snd ch)) = Inr st"
    unfolding getState_Inr_iff by blast
  let ?x = "(newId env, \<lparr>parentId = Some (currentNodeId g), label = lbl, invocation = Some action,
             kind = (if e then Ephemeral else Durable), timestamp = now env\<rparr>)"
  from a have "ancestry (length (nodes g)) (nodes g @ [?x]) i = Inr ch" by (rule ancestry_append)
  then have "ancestry (Suc (length (nodes g))) (nodes g @ [?x]) i = Inr ch" by (rule ancestry_Suc)
  then have "ancestry (length (nodes (trrack_apply env lbl action e g)))
      (nodes (trrack_apply env lbl action e g)) i = Inr ch"
    by (simp only: nodes_apply length_append list.size) simp
  with r show ?thesis unfolding getState_Inr_iff by (auto simp: rootState_apply)
qed

lemma getLast_apply_old:
  assumes "findLastNonEphemeralAncestor (length (nodes g)) (nodes g) i k = Inr t"
  shows "findLastNonEphemeralAncestor (length (nodes g))
           (nodes (trrack_apply env lbl action e g)) i k = Inr t"
  using assms by (simp only: nodes_apply findLast_append)

lemma getLast_apply_ephemeral:
  assumes fresh: "newId env \<notin> fst ` set (nodes g)"
    and t: "getLastNNonEphemeralNode g k = Inr t"
  shows "getLastNNonEphemeralNode (trrack_apply env lbl action True g) k = Inr t"
proof -
  let ?g = "trrack_apply env lbl action True g"
  have l: "map_of (nodes ?g) (newId env) = Some \<lparr>parentId = Some (currentNodeId g), label = lbl,
      invocation = Some action, kind = Ephemeral, timestamp = now env\<rparr>"
    using map_of_snoc_fresh [OF fresh] by (simp add: nodes_apply)
  have len: "length (nodes ?g) = Suc (length (nodes g))" by (simp add: nodes_apply)
  from t have "findLastNonEphemeralAncestor (length (nodes g)) (nodes ?g) (currentNodeId g) k = Inr t"
    unfolding getLastNNonEphemeralNode_def by (rule getLast_apply_old)
  then show ?thesis
    unfolding getLastNNonEphemeralNode_def len current_apply
    by (simp only: findLast_Suc_eq [OF l]) simp
qed

lemma getLast_apply_durable:
  assumes fresh: "newId env \<notin> fst ` set (nodes g)"
    and t: "getLastNNonEphemeralNode g k = Inr t"
  shows "getLastNNonEphemeralNode (trrack_apply env lbl action False g) (Suc k) = Inr t"
proof -
  let ?g = "trrack_apply env lbl action False g"
  have l: "map_of (nodes ?g) (newId env) = Some \<lparr>parentId = Some (currentNodeId g), label = lbl,
      invocation = Some action, kind = Durable, timestamp = now env\<rparr>"
    using map_of_snoc_fresh [OF fresh] by (simp add: nodes_apply)
  have len: "length (nodes ?g) = Suc (length (nodes g))" by (simp add: nodes_apply)
  from t have "findLastNonEphemeralAncestor (length (nodes g)) (nodes ?g) (currentNodeId g) k = Inr t"
    unfolding getLastNNonEphemeralNode_def by (rule getLast_apply_old)
  then show ?thesis
    unfolding getLastNNonEphemeralNode_def len current_apply
    by (simp only: findLast_Suc_eq [OF l]) simp
qed


section \<open>The navigator on a graph whose current node resolves\<close>

lemma ancestry_lookup:
  "ancestry f ns i = Inr ch \<Longrightarrow> (t, n) \<in> set ch \<Longrightarrow> map_of ns t = Some n"
proof (induction f arbitrary: i ch)
  case 0
  then show ?case by simp
next
  case (Suc f)
  from Suc.prems(1) obtain m where m: "map_of ns i = Some m"
    and c: "case parentId m of None \<Rightarrow> ch = [(i, m)]
            | Some p \<Rightarrow> \<exists>ch'. ancestry f ns p = Inr ch' \<and> ch = (i, m) # ch'"
    unfolding ancestry_Suc_iff by blast
  show ?case
  proof (cases "parentId m")
    case None
    with c Suc.prems(2) m show ?thesis by simp
  next
    case (Some p)
    with c obtain ch' where a: "ancestry f ns p = Inr ch'" and ch: "ch = (i, m) # ch'"
      by auto
    from Suc.prems(2) ch have "(t, n) = (i, m) \<or> (t, n) \<in> set ch'" by simp
    then show ?thesis
    proof
      assume "(t, n) = (i, m)"
      with m show ?thesis by simp
    next
      assume "(t, n) \<in> set ch'"
      with Suc.IH [OF a] show ?thesis by blast
    qed
  qed
qed

lemma navigator_total:
  assumes "getState g (currentNodeId g) = Inr st"
  shows "\<exists>t n st'. getLastNNonEphemeralNode g k = Inr t \<and> getNode g t = Some n \<and>
           (kind n = Durable \<or> isRootNode n) \<and> getState g t = Inr st'"
proof -
  from assms obtain ch where a: "ancestry (length (nodes g)) (nodes g) (currentNodeId g) = Inr ch"
    unfolding getState_Inr_iff by blast
  from findLast_total [OF a, of k] obtain t n where
    t: "findLastNonEphemeralAncestor (length (nodes g)) (nodes g) (currentNodeId g) k = Inr t"
    and m: "(t, n) \<in> set ch" and d: "kind n = Durable \<or> parentId n = None" by blast
  from ancestry_lookup [OF a m] have "getNode g t = Some n" by (simp add: getNode_def)
  moreover from m have "t \<in> fst ` set ch" by force
  from getState_member [OF assms a this] obtain st' where "getState g t = Inr st'" ..
  ultimately show ?thesis
    using t d by (auto simp: getLastNNonEphemeralNode_def isRootNode_def)
qed

lemma current_lookup:
  assumes "getState g (currentNodeId g) = Inr st"
  shows "\<exists>n. getNode g (currentNodeId g) = Some n"
proof -
  from assms obtain ch where "ancestry (length (nodes g)) (nodes g) (currentNodeId g) = Inr ch"
    unfolding getState_Inr_iff by blast
  from ancestry_head [OF this] show ?thesis by (auto simp: getNode_def)
qed

lemma undo_onClick_ok:
  assumes "getState (trrack s) (currentNodeId (trrack s)) = Inr st"
  shows "isOK (undo_onClick env s)"
proof -
  from navigator_total [OF assms, of "length (undoStack s) + 1"] obtain t st' where
    "getLastNNonEphemeralNode (trrack s) (length (undoStack s) + 1) = Inr t"
    "getState (trrack s) t = Inr st'" by blast
  moreover from current_lookup [OF assms] obtain n where
    "getNode (trrack s) (currentNodeId (trrack s)) = Some n" ..
  ultimately show ?thesis
    by (simp add: undo_onClick_def thenE_def isOK_def Let_def)
qed


section \<open>A burst of pointer moves\<close>

lemma debouncedApply_fn_node:
  "nodes (trrack (debouncedApply_fn env l s)) =
     nodes (trrack s) @
       [(newId env, \<lparr>parentId = Some (currentNodeId (trrack s)), label = ''drawing'',
          invocation = Some \<lparr>mutatorName = ''draw'', parameters = l\<rparr>,
          kind = Ephemeral, timestamp = now env\<rparr>)]"
  by (simp add: debouncedApply_fn_def nodes_apply actions_draw_def handle_def)

lemma handleMouseMove_cases:
  assumes "handleMouseMove b env e s = Inr s'"
  shows "isDrawing s' = isDrawing s \<and>
     (if isDrawing s
      then undoStack s' = [] \<and>
        (trrack s' = trrack s \<or>
         trrack s' = trrack_apply env ''drawing'' (actions_draw (c_lines s')) True (trrack s))
      else undoStack s' = undoStack s \<and> trrack s' = trrack s)"
  using assms
  by (auto simp: handleMouseMove_def thenE_def Let_def debouncedApply_fn_def
      split: if_splits PointerEvent.splits option.splits)

lemma burst_step:
  assumes "isBurstEvent ev" and "step num ev s = Inr s'"
  shows "isDrawing s' = isDrawing s \<and> (undoStack s' = [] \<or> undoStack s' = undoStack s) \<and>
     (isDrawing s \<and> (\<exists>b env e. ev = MouseMove b env e) \<longrightarrow> undoStack s' = []) \<and>
     (\<exists>env l. eventId ev = [newId env] \<and>
        (trrack s' = trrack s \<or>
         trrack s' = trrack_apply env ''drawing'' (actions_draw l) True (trrack s)))"
proof (cases ev)
  case (MouseMove b env e)
  with assms(2) have "handleMouseMove b env e s = Inr s'" by simp
  from handleMouseMove_cases [OF this] MouseMove show ?thesis
    by (cases "isDrawing s") auto
next
  case (ThrottleTrailing env l)
  with assms(2) have "s' = debouncedApply_fn env l s" by simp
  with ThrottleTrailing show ?thesis by (auto simp: debouncedApply_fn_def)
qed (use assms(1) in simp_all)

lemma ids_apply:
  "fst ` set (nodes (trrack_apply env lbl action e g)) = insert (newId env) (fst ` set (nodes g))"
  by (simp add: nodes_apply)

lemma disjoint_step:
  "A1 \<subseteq> insert x A \<Longrightarrow> E \<inter> A = {} \<Longrightarrow> x \<notin> E \<Longrightarrow> E \<inter> A1 = {}"
  by blast

lemma subset_step:
  "A1 \<subseteq> insert x A \<Longrightarrow> A2 \<subseteq> A1 \<union> E \<Longrightarrow> A2 \<subseteq> A \<union> insert x E"
  by blast

lemma burst_run:
  assumes "list_all isBurstEvent evs" and "run num evs s = Inr s'"
    and "isOK (getState (trrack s) (currentNodeId (trrack s)))"
    and "getLastNNonEphemeralNode (trrack s) 0 = Inr t"
    and "distinct (eventIds evs)"
    and "set (eventIds evs) \<inter> fst ` set (nodes (trrack s)) = {}"
  shows "getLastNNonEphemeralNode (trrack s') 0 = Inr t \<and>
     isOK (getState (trrack s') (currentNodeId (trrack s'))) \<and>
     fst ` set (nodes (trrack s')) \<subseteq> fst ` set (nodes (trrack s)) \<union> set (eventIds evs) \<and>
     isDrawing s' = isDrawing s \<and>
     (undoStack s = [] \<longrightarrow> undoStack s' = []) \<and>
     (isDrawing s \<and> (\<exists>b env e rest. evs = MouseMove b env e # rest) \<longrightarrow> undoStack s' = []) \<and>
     (\<forall>i x. getState (trrack s) i = Inr x \<longrightarrow> getState (trrack s') i = Inr x)"
  using assms
proof (induction evs arbitrary: s)
  case Nil
  then show ?case by simp
next
  case (Cons ev evs)
  from Cons.prems(2) obtain s1 where s1: "step num ev s = Inr s1" and r: "run num evs s1 = Inr s'"
    by (auto simp: thenE_def split: sum.splits)
  from Cons.prems(1) have b: "isBurstEvent ev" and bs: "list_all isBurstEvent evs" by simp_all
  from burst_step [OF b s1] obtain env l where
    d: "isDrawing s1 = isDrawing s" and u: "undoStack s1 = [] \<or> undoStack s1 = undoStack s"
    and m: "isDrawing s \<and> (\<exists>b env e. ev = MouseMove b env e) \<longrightarrow> undoStack s1 = []"
    and i: "eventId ev = [newId env]"
    and g: "trrack s1 = trrack s \<or>
            trrack s1 = trrack_apply env ''drawing'' (actions_draw l) True (trrack s)"
    by blast
  from Cons.prems(5) i have dis: "distinct (eventIds evs)" and nin: "newId env \<notin> set (eventIds evs)"
    by (simp_all add: eventIds_def)
  from Cons.prems(6) i have fresh: "newId env \<notin> fst ` set (nodes (trrack s))"
    and disj: "set (eventIds evs) \<inter> fst ` set (nodes (trrack s)) = {}"
    by (auto simp: eventIds_def)
  from Cons.prems(3) obtain st where st: "getState (trrack s) (currentNodeId (trrack s)) = Inr st"
    unfolding isOK_iff ..
  have inv: "getLastNNonEphemeralNode (trrack s1) 0 = Inr t \<and>
      isOK (getState (trrack s1) (currentNodeId (trrack s1))) \<and>
      fst ` set (nodes (trrack s1)) \<subseteq> insert (newId env) (fst ` set (nodes (trrack s))) \<and>
      (\<forall>i x. getState (trrack s) i = Inr x \<longrightarrow> getState (trrack s1) i = Inr x)"
    using g
  proof
    assume "trrack s1 = trrack s"
    with Cons.prems(3,4) show ?thesis by auto
  next
    assume a: "trrack s1 = trrack_apply env ''drawing'' (actions_draw l) True (trrack s)"
    have "getState (trrack s1) (currentNodeId (trrack s1)) = Inr (draw_fn st (parameters (actions_draw l)))"
      unfolding a current_apply
      by (rule getState_apply_new [OF fresh st])
        (simp add: actions_draw_def handle_def draw_registered)
    then show ?thesis
      unfolding a
      by (simp add: getLast_apply_ephemeral [OF fresh Cons.prems(4)] ids_apply getState_apply_old
          isOK_def current_apply)
  qed
  from inv have sub: "fst ` set (nodes (trrack s1)) \<subseteq> insert (newId env) (fst ` set (nodes (trrack s)))"
    by simp
  from sub disj nin have disj1: "set (eventIds evs) \<inter> fst ` set (nodes (trrack s1)) = {}"
    by (rule disjoint_step)
  from inv have "getLastNNonEphemeralNode (trrack s1) 0 = Inr t"
    "isOK (getState (trrack s1) (currentNodeId (trrack s1)))" by simp_all
  from Cons.IH [OF bs r this(2) this(1) dis disj1]
  have IH: "getLastNNonEphemeralNode (trrack s') 0 = Inr t \<and>
     isOK (getState (trrack s') (currentNodeId (trrack s'))) \<and>
     fst ` set (nodes (trrack s')) \<subseteq> fst ` set (nodes (trrack s1)) \<union> set (eventIds evs) \<and>
     isDrawing s' = isDrawing s1 \<and>
     (undoStack s1 = [] \<longrightarrow> undoStack s' = []) \<and>
     (isDrawing s1 \<and> (\<exists>b env e rest. evs = MouseMove b env e # rest) \<longrightarrow> undoStack s' = []) \<and>
     (\<forall>i x. getState (trrack s1) i = Inr x \<longrightarrow> getState (trrack s') i = Inr x)" .
  from IH have sub': "fst ` set (nodes (trrack s')) \<subseteq> fst ` set (nodes (trrack s1)) \<union> set (eventIds evs)"
    by simp
  have e: "set (eventIds (ev # evs)) = insert (newId env) (set (eventIds evs))"
    using i by (simp add: eventIds_def)
  from sub sub' have ids: "fst ` set (nodes (trrack s')) \<subseteq> fst ` set (nodes (trrack s)) \<union> set (eventIds (ev # evs))"
    unfolding e by (rule subset_step)
  have c1: "getLastNNonEphemeralNode (trrack s') 0 = Inr t" using IH by simp
  have c2: "isOK (getState (trrack s') (currentNodeId (trrack s')))" using IH by simp
  have c4: "isDrawing s' = isDrawing s" using IH d by simp
  have c5: "undoStack s = [] \<longrightarrow> undoStack s' = []" using IH u by fastforce
  have p1: "\<forall>i x. getState (trrack s) i = Inr x \<longrightarrow> getState (trrack s1) i = Inr x"
    using inv by simp
  have p2: "\<forall>i x. getState (trrack s1) i = Inr x \<longrightarrow> getState (trrack s') i = Inr x"
    using IH by simp
  have c6: "\<forall>i x. getState (trrack s) i = Inr x \<longrightarrow> getState (trrack s') i = Inr x"
    using p1 p2 by blast
  have c7: "isDrawing s \<and> (\<exists>b env e rest. ev # evs = MouseMove b env e # rest) \<longrightarrow> undoStack s' = []"
    using IH m by fastforce
  from c1 c2 ids c4 c5 c7 c6 show ?case by (intro conjI)
qed

lemma undo_replay: 
  assumes "getState g i = Inr st" and "getState g j = Inr prevState"
  shows "undo_fn st (lines prevState) = prevState"
  using getState_frame [OF assms(1)] getState_frame [OF assms(2)]
  by (cases st, cases prevState) (simp add: undo_fn_def)

lemma getNode_member: "getNode g t = Some n \<Longrightarrow> t \<in> fst ` set (nodes g)"
  unfolding getNode_def by (metis fst_conv image_eqI map_of_SomeD)

lemma fresh_from_disjoint:
  "distinct (ids @ [x]) \<Longrightarrow> set (ids @ [x]) \<inter> A = {} \<Longrightarrow> B \<subseteq> A \<union> set ids \<Longrightarrow> x \<notin> B"
  by auto

lemma burst_then_durable:
  assumes ok: "isOK (getState (trrack s0) (currentNodeId (trrack s0)))"
    and bs: "list_all isBurstEvent evs"
    and em: "undoStack s0 = [] \<or>
             (isDrawing s0 \<and> (\<exists>b envM e0 rest. evs = MouseMove b envM e0 # rest))"
    and di: "distinct (eventIds evs @ [newId envUp])"
    and dj: "set (eventIds evs @ [newId envUp]) \<inter> fst ` set (nodes (trrack s0)) = {}"
    and r: "run num evs s0 = Inr s1"
    and s: "s = handleMouseUp envUp s1 \<or> s = clear_onClick envUp s1"
  shows "\<exists>t st. getLastNNonEphemeralNode (trrack s0) 0 = Inr t \<and>
           getState (trrack s0) t = Inr st \<and> t \<in> fst ` set (nodes (trrack s0)) \<and>
           undoStack s = [] \<and>
           getLastNNonEphemeralNode (trrack s) (Suc 0) = Inr t \<and>
           getState (trrack s) t = Inr st"
proof -
  from ok obtain st0 where st0: "getState (trrack s0) (currentNodeId (trrack s0)) = Inr st0"
    unfolding isOK_iff ..
  from navigator_total [OF st0, of 0] obtain t n st where
    t: "getLastNNonEphemeralNode (trrack s0) 0 = Inr t" and n: "getNode (trrack s0) t = Some n"
    and st: "getState (trrack s0) t = Inr st" by blast
  from di have di': "distinct (eventIds evs)" by simp
  from dj have dj': "set (eventIds evs) \<inter> fst ` set (nodes (trrack s0)) = {}" by auto
  from burst_run [OF bs r ok t di' dj'] have
    t1: "getLastNNonEphemeralNode (trrack s1) 0 = Inr t"
    and sub: "fst ` set (nodes (trrack s1)) \<subseteq> fst ` set (nodes (trrack s0)) \<union> set (eventIds evs)"
    and u0: "undoStack s0 = [] \<longrightarrow> undoStack s1 = []"
    and u: "isDrawing s0 \<and> (\<exists>b env e rest'. evs = MouseMove b env e # rest') \<longrightarrow> undoStack s1 = []"
    and pres: "\<forall>i x. getState (trrack s0) i = Inr x \<longrightarrow> getState (trrack s1) i = Inr x"
    by simp_all
  from em u0 u have u1: "undoStack s1 = []" by blast
  have fresh: "newId envUp \<notin> fst ` set (nodes (trrack s1))"
    using di dj sub by (rule fresh_from_disjoint)
  from s obtain lbl action where
    g: "trrack s = trrack_apply envUp lbl action False (trrack s1)"
    and us: "undoStack s = undoStack s1"
    by (auto simp: handleMouseUp_def clear_onClick_def Let_def)
  have "undoStack s = []" using u1 us by simp
  moreover have "getLastNNonEphemeralNode (trrack s) (Suc 0) = Inr t"
    unfolding g using fresh t1 by (rule getLast_apply_durable)
  moreover from pres st have "getState (trrack s1) t = Inr st" by blast
  then have "getState (trrack s) t = Inr st"
    unfolding g by (rule getState_apply_old)
  moreover from n have "t \<in> fst ` set (nodes (trrack s0))" by (rule getNode_member)
  ultimately show ?thesis using t st by blast
qed


section \<open>Graphs that can be imported\<close>

lemma orElse_self: "orElse a a = a"
  by (simp add: orElse_def)

lemma getState_root:
  "getState (initializeTrrack env st) (newId env) = Inr st"
  by (simp add: model_defs)

lemma wellFormed_apply:
  assumes wf: "wellFormed g" and fresh: "newId env \<notin> fst ` set (nodes g)"
  shows "wellFormed (trrack_apply env lbl action e g)"
proof -
  let ?g = "trrack_apply env lbl action e g"
  let ?x = "(newId env, \<lparr>parentId = Some (currentNodeId g), label = lbl, invocation = Some action,
             kind = (if e then Ephemeral else Durable), timestamp = now env\<rparr>)"
  have ns: "nodes ?g = nodes g @ [?x]" by (rule nodes_apply)
  have len: "length (nodes ?g) = Suc (length (nodes g))" by (simp add: ns)
  from wf obtain ch where a: "ancestry (length (nodes g)) (nodes g) (currentNodeId g) = Inr ch"
    unfolding wellFormed_def isOK_iff by blast
  from ancestry_apply_new [OF fresh a, of lbl action e]
  have new: "isOK (ancestry (length (nodes ?g)) (nodes ?g) (newId env))"
    by (simp add: isOK_def)
  have old: "isOK (ancestry (length (nodes ?g)) (nodes ?g) i)"
    if "isOK (ancestry (length (nodes g)) (nodes g) i)" for i
  proof -
    from that obtain c where "ancestry (length (nodes g)) (nodes g) i = Inr c"
      unfolding isOK_iff ..
    then have "ancestry (Suc (length (nodes g))) (nodes g @ [?x]) i = Inr c"
      by (intro ancestry_Suc ancestry_append)
    then show ?thesis unfolding len ns by (simp add: isOK_def)
  qed
  from wf have "list_all (\<lambda>e. isOK (ancestry (length (nodes g)) (nodes g) (fst e))) (nodes g)"
    by (simp add: wellFormed_def)
  then have "list_all (\<lambda>e. isOK (ancestry (length (nodes ?g)) (nodes ?g) (fst e))) (nodes g)"
    by (simp add: list_all_iff old)
  moreover have "fst ?x = newId env" by simp
  ultimately have "list_all (\<lambda>e. isOK (ancestry (length (nodes ?g)) (nodes ?g) (fst e))) (nodes g @ [?x])"
    using new by simp
  then have "list_all (\<lambda>e. isOK (ancestry (length (nodes ?g)) (nodes ?g) (fst e))) (nodes ?g)"
    by (simp only: ns [symmetric])
  with new show ?thesis
    unfolding wellFormed_def current_apply by simp
qed

lemma wellFormed_initializeTrrack: "wellFormed (initializeTrrack env st)"
  by (simp add: wellFormed_def initializeTrrack_def isOK_def)

lemma resume_after_pointer_up:
  assumes wf: "wellFormed (trrack s)" and ok: "isOK (getState (trrack s) (currentNodeId (trrack s)))"
    and root: "rootState (trrack s) = initialState"
    and fresh: "newId envU \<notin> fst ` set (nodes (trrack s))"
    and a: "answer (handleMouseUp envU s) = Some a"
    and rid: "responseId \<noteq> []" and key: "startsWith key responseId"
  shows "Canvas_mount env responseId [(key, \<lparr>stimulus = Some (provenanceGraph a)\<rparr>)] =
      Inr \<lparr>c_tool = ''pen'', c_penSize = ''5'', c_lines = c_lines s,
           c_color = DEFAULT_THEME_colors_red_5, mousePos = (0, 0), isDrawing = False,
           undoStack = [], trrack = trrack (handleMouseUp envU s), answer = None\<rparr>"
proof -
  let ?g = "trrack_apply envU ''draw end'' (actions_drawEnd (c_lines s)) False (trrack s)"
  have g: "trrack (handleMouseUp envU s) = ?g" by (simp add: handleMouseUp_def Let_def)
  from a have pa: "provenanceGraph a = ?g" by (auto simp: handleMouseUp_def Let_def)
  from ok obtain st where st: "getState (trrack s) (currentNodeId (trrack s)) = Inr st"
    unfolding isOK_iff ..
  from getState_frame [OF st] root have f: "tool st = ''pen''" "penSize st = ''5''"
    "color st = DEFAULT_THEME_colors_red_5" by (simp_all add: initialState_def)
  have "map_of registry (mutatorName (actions_drawEnd (c_lines s))) = Some drawEnd_fn"
    by (simp add: actions_drawEnd_def handle_def drawEnd_registered)
  from getState_apply_new [OF fresh st this, of "''draw end''" False]
  have r: "getState ?g (currentNodeId ?g) = Inr (st\<lparr>lines := c_lines s\<rparr>)"
    by (simp add: current_apply drawEnd_fn_def actions_drawEnd_def handle_def)
  have w: "wellFormed ?g" using wf fresh by (rule wellFormed_apply)
  from rid key w r f show ?thesis
    unfolding pa g
    by (simp add: Canvas_mount_def Let_def thenE_def importObject_def orElse_def)
qed


section \<open>What the navigator returns\<close>

text \<open>
  On the chain from a node to the root, the navigator returns the durable node (other
  than the root) with index \<open>k\<close>, or the root when there are not that many.
\<close>

lemma ancestry_nonempty: "ancestry f ns i = Inr ch \<Longrightarrow> ch \<noteq> []"
  using ancestry_head by fastforce

lemma findLast_durables:
  assumes "ancestry f ns i = Inr ch"
  shows "findLastNonEphemeralAncestor f ns i k =
     Inr (if k < length (filter (\<lambda>e. kind (snd e) = Durable \<and> parentId (snd e) \<noteq> None) ch)
          then fst (filter (\<lambda>e. kind (snd e) = Durable \<and> parentId (snd e) \<noteq> None) ch ! k)
          else fst (last ch))"
  using assms
proof (induction f arbitrary: i ch k)
  case 0
  then show ?case by simp
next
  case (Suc f)
  let ?D = "\<lambda>e. kind (snd e) = Durable \<and> parentId (snd e) \<noteq> None"
  from Suc.prems obtain n where n: "map_of ns i = Some n"
    and c: "case parentId n of None \<Rightarrow> ch = [(i, n)]
            | Some p \<Rightarrow> \<exists>ch'. ancestry f ns p = Inr ch' \<and> ch = (i, n) # ch'"
    unfolding ancestry_Suc_iff by blast
  show ?case
  proof (cases "parentId n")
    case None
    with c show ?thesis by (simp only: findLast_Suc_eq [OF n]) simp
  next
    case (Some p)
    with c obtain ch' where a: "ancestry f ns p = Inr ch'" and ch: "ch = (i, n) # ch'"
      by auto
    from ancestry_nonempty [OF a] have ne: "ch' \<noteq> []" .
    note IH = Suc.IH [OF a]
    show ?thesis
    proof (cases "kind n = Durable")
      case True
      show ?thesis
      proof (cases k)
        case 0
        with True Some ch show ?thesis by (simp only: findLast_Suc_eq [OF n]) simp
      next
        case (Suc k')
        with True Some ch ne IH [of k'] show ?thesis
          by (simp only: findLast_Suc_eq [OF n]) simp
      qed
    next
      case False
      with Some ch ne IH [of k] show ?thesis
        by (simp only: findLast_Suc_eq [OF n]) simp
    qed
  qed
qed


section \<open>Every session keeps its graph importable and its current node resolvable\<close>

lemma step_graphI:
  "eventId ev = [newId env] \<Longrightarrow> map_of registry (mutatorName action) = Some m \<Longrightarrow>
   trrack s' = trrack_apply env lbl action e (trrack s) \<Longrightarrow>
   trrack s' = trrack s \<or>
     (\<exists>env lbl action e m. eventId ev = [newId env] \<and>
        map_of registry (mutatorName action) = Some m \<and>
        trrack s' = trrack_apply env lbl action e (trrack s))"
  by blast

lemma step_graph:
  assumes "step num ev s = Inr s'"
  shows "trrack s' = trrack s \<or>
     (\<exists>env lbl action e m. eventId ev = [newId env] \<and>
        map_of registry (mutatorName action) = Some m \<and>
        trrack s' = trrack_apply env lbl action e (trrack s))"
proof (cases ev)
  case (MouseDown e)
  with assms have "trrack s' = trrack s"
    by (auto simp: handleMouseDown_def split: PointerEvent.splits option.splits)
  then show ?thesis ..
next
  case (MouseMove b env e)
  with assms have "handleMouseMove b env e s = Inr s'" by simp
  from handleMouseMove_cases [OF this] have
    "trrack s' = trrack s \<or>
     trrack s' = trrack_apply env ''drawing'' (actions_draw (c_lines s')) True (trrack s)"
    by (cases "isDrawing s") auto
  then show ?thesis
  proof
    assume "trrack s' = trrack s"
    then show ?thesis ..
  next
    assume g: "trrack s' = trrack_apply env ''drawing'' (actions_draw (c_lines s')) True (trrack s)"
    have "eventId ev = [newId env]" using MouseMove by simp
    moreover have "map_of registry (mutatorName (actions_draw (c_lines s'))) = Some draw_fn"
      by (simp add: actions_draw_def handle_def draw_registered)
    ultimately show ?thesis using g by (rule step_graphI)
  qed
next
  case (ThrottleTrailing env l)
  have "eventId ev = [newId env]" using ThrottleTrailing by simp
  moreover have "map_of registry (mutatorName (actions_draw l)) = Some draw_fn"
    by (simp add: actions_draw_def handle_def draw_registered)
  moreover from assms ThrottleTrailing
  have "trrack s' = trrack_apply env ''drawing'' (actions_draw l) True (trrack s)"
    by (auto simp: debouncedApply_fn_def)
  ultimately show ?thesis by (rule step_graphI)
next
  case (MouseUp env)
  have "eventId ev = [newId env]" using MouseUp by simp
  moreover have "map_of registry (mutatorName (actions_drawEnd (c_lines s))) = Some drawEnd_fn"
    by (simp add: actions_drawEnd_def handle_def drawEnd_registered)
  moreover from assms MouseUp
  have "trrack s' = trrack_apply env ''draw end'' (actions_drawEnd (c_lines s)) False (trrack s)"
    by (auto simp: handleMouseUp_def Let_def)
  ultimately show ?thesis by (rule step_graphI)
next
  case (ClearClick env)
  have "eventId ev = [newId env]" using ClearClick by simp
  moreover have "map_of registry (mutatorName (actions_clear [])) = Some clear_fn"
    by (simp add: actions_clear_def handle_def clear_registered)
  moreover from assms ClearClick
  have "trrack s' = trrack_apply env ''clear'' (actions_clear []) False (trrack s)"
    by (auto simp: clear_onClick_def)
  ultimately show ?thesis by (rule step_graphI)
next
  case (UndoClick env)
  have i: "eventId ev = [newId env]" using UndoClick by simp
  have m: "\<And>l. map_of registry (mutatorName (actions_undo l)) = Some undo_fn"
    by (simp add: actions_undo_def handle_def undo_registered)
  from assms UndoClick have "trrack s' = trrack s \<or>
      (\<exists>l. trrack s' = trrack_apply env ''undo'' (actions_undo l) True (trrack s))"
    by (auto simp: undo_onClick_def thenE_def Let_def split: sum.splits option.splits if_splits)
  then show ?thesis
  proof
    assume "trrack s' = trrack s"
    then show ?thesis ..
  next
    assume "\<exists>l. trrack s' = trrack_apply env ''undo'' (actions_undo l) True (trrack s)"
    then obtain l where "trrack s' = trrack_apply env ''undo'' (actions_undo l) True (trrack s)" ..
    with i m [of l] show ?thesis by (rule step_graphI)
  qed
next
  case (RedoClick env)
  have i: "eventId ev = [newId env]" using RedoClick by simp
  have m: "\<And>l. map_of registry (mutatorName (actions_undo l)) = Some undo_fn"
    by (simp add: actions_undo_def handle_def undo_registered)
  from assms RedoClick have "trrack s' = trrack s \<or>
      (\<exists>l. trrack s' = trrack_apply env ''redo'' (actions_undo l) True (trrack s))"
    by (auto simp: redo_onClick_def redo_disabled_def thenE_def split: sum.splits if_splits)
  then show ?thesis
  proof
    assume "trrack s' = trrack s"
    then show ?thesis ..
  next
    assume "\<exists>l. trrack s' = trrack_apply env ''redo'' (actions_undo l) True (trrack s)"
    then obtain l where "trrack s' = trrack_apply env ''redo'' (actions_undo l) True (trrack s)" ..
    with i m [of l] show ?thesis by (rule step_graphI)
  qed
next
  case (ToolChange v)
  with assms have "trrack s' = trrack s" by (auto simp: setTool_def)
  then show ?thesis ..
next
  case (PenSizeChange v)
  with assms have "trrack s' = trrack s" by (auto simp: setPenSize_def)
  then show ?thesis ..
next
  case (ColorChange v)
  with assms have "trrack s' = trrack s" by (auto simp: onColorChange_def)
  then show ?thesis ..
next
  case (ProvenanceState ps)
  with assms have "trrack s' = trrack s" by (auto simp: provenanceState_effect_def)
  then show ?thesis ..
qed

lemma apply_invariant:
  assumes wf: "wellFormed g" and ok: "isOK (getState g (currentNodeId g))"
    and fresh: "newId env \<notin> fst ` set (nodes g)"
    and m: "map_of registry (mutatorName action) = Some m"
  shows "wellFormed (trrack_apply env lbl action e g) \<and>
     isOK (getState (trrack_apply env lbl action e g) (currentNodeId (trrack_apply env lbl action e g))) \<and>
     rootState (trrack_apply env lbl action e g) = rootState g \<and>
     fst ` set (nodes (trrack_apply env lbl action e g)) = insert (newId env) (fst ` set (nodes g))"
proof -
  from ok obtain st where st: "getState g (currentNodeId g) = Inr st" unfolding isOK_iff ..
  from getState_apply_new [OF fresh st m, of lbl e] wellFormed_apply [OF wf fresh, of lbl action e]
  show ?thesis by (simp add: current_apply rootState_apply ids_apply isOK_def)
qed

lemma subset_insert_step: "A1 = insert x A \<Longrightarrow> A1 \<subseteq> A \<union> set [x]"
  by auto

lemma disjoint_after_step:
  "distinct (a @ b) \<Longrightarrow> set (a @ b) \<inter> A = {} \<Longrightarrow> A1 \<subseteq> A \<union> set a \<Longrightarrow> set b \<inter> A1 = {}"
  by auto

lemma subset_chain:
  "A1 \<subseteq> A \<union> set a \<Longrightarrow> A2 \<subseteq> A1 \<union> set b \<Longrightarrow> A2 \<subseteq> A \<union> set (a @ b)"
  by auto

lemma run_invariant:
  assumes "run num evs s = Inr s'"
    and "wellFormed (trrack s)" and "isOK (getState (trrack s) (currentNodeId (trrack s)))"
    and "distinct (eventIds evs)"
    and "set (eventIds evs) \<inter> fst ` set (nodes (trrack s)) = {}"
  shows "wellFormed (trrack s') \<and> isOK (getState (trrack s') (currentNodeId (trrack s'))) \<and>
     rootState (trrack s') = rootState (trrack s) \<and>
     fst ` set (nodes (trrack s')) \<subseteq> fst ` set (nodes (trrack s)) \<union> set (eventIds evs)"
  using assms
proof (induction evs arbitrary: s)
  case Nil
  then show ?case by simp
next
  case (Cons ev evs)
  from Cons.prems(1) obtain s1 where s1: "step num ev s = Inr s1" and r: "run num evs s1 = Inr s'"
    by (auto simp: thenE_def split: sum.splits)
  have e: "eventIds (ev # evs) = eventId ev @ eventIds evs" by (simp add: eventIds_def)
  from Cons.prems(4) have dis: "distinct (eventIds evs)" unfolding e by simp
  have inv: "wellFormed (trrack s1) \<and> isOK (getState (trrack s1) (currentNodeId (trrack s1))) \<and>
     rootState (trrack s1) = rootState (trrack s) \<and>
     fst ` set (nodes (trrack s1)) \<subseteq> fst ` set (nodes (trrack s)) \<union> set (eventId ev)"
    using step_graph [OF s1]
  proof
    assume "trrack s1 = trrack s"
    with Cons.prems(2,3) show ?thesis by simp
  next
    assume "\<exists>env lbl action e m. eventId ev = [newId env] \<and>
        map_of registry (mutatorName action) = Some m \<and>
        trrack s1 = trrack_apply env lbl action e (trrack s)"
    then obtain env lbl action e' m where i: "eventId ev = [newId env]"
      and m: "map_of registry (mutatorName action) = Some m"
      and g: "trrack s1 = trrack_apply env lbl action e' (trrack s)" by blast
    from Cons.prems(5) i have fresh: "newId env \<notin> fst ` set (nodes (trrack s))"
      unfolding e by auto
    from apply_invariant [OF Cons.prems(2,3) fresh m, of lbl e'] show ?thesis
      unfolding g i by (simp add: subset_insert_step)
  qed
  then have sub: "fst ` set (nodes (trrack s1)) \<subseteq> fst ` set (nodes (trrack s)) \<union> set (eventId ev)"
    by simp
  have disj: "set (eventIds evs) \<inter> fst ` set (nodes (trrack s1)) = {}"
    using Cons.prems(4,5) sub unfolding e by (rule disjoint_after_step)
  from inv have w1: "wellFormed (trrack s1)"
    and o1: "isOK (getState (trrack s1) (currentNodeId (trrack s1)))"
    and r1: "rootState (trrack s1) = rootState (trrack s)" by simp_all
  from Cons.IH [OF r w1 o1 dis disj] have
    IH: "wellFormed (trrack s') \<and> isOK (getState (trrack s') (currentNodeId (trrack s'))) \<and>
     rootState (trrack s') = rootState (trrack s1) \<and>
     fst ` set (nodes (trrack s')) \<subseteq> fst ` set (nodes (trrack s1)) \<union> set (eventIds evs)" .
  then have sub': "fst ` set (nodes (trrack s')) \<subseteq> fst ` set (nodes (trrack s1)) \<union> set (eventIds evs)"
    by simp
  from sub sub' have "fst ` set (nodes (trrack s')) \<subseteq> fst ` set (nodes (trrack s)) \<union> set (eventIds (ev # evs))"
    unfolding e by (rule subset_chain)
  with IH r1 show ?case by simp
qed

lemma mount_invariant:
  assumes "Canvas_mount env responseId answers' = Inr s"
  shows "wellFormed (trrack s) \<and> isOK (getState (trrack s) (currentNodeId (trrack s)))"
proof (cases "responseId = []")
  case True
  with assms have t: "trrack s = initializeTrrack env initialState"
    by (auto simp: Canvas_mount_def Let_def)
  have "currentNodeId (initializeTrrack env initialState) = newId env"
    by (simp add: initializeTrrack_def)
  then have "isOK (getState (initializeTrrack env initialState)
      (currentNodeId (initializeTrrack env initialState)))"
    by (simp only: getState_root) (simp add: isOK_def)
  then show ?thesis
    unfolding t using wellFormed_initializeTrrack [of env initialState] by (rule conjI [rotated])
next
  case False
  define imp where "imp stored = (case stimulus stored of
      None \<Rightarrow> Inr (initializeTrrack env initialState)
    | Some serialized \<Rightarrow> importObject serialized)" for stored :: StoredAnswer
  from assms False obtain stored where
    m: "thenE (imp stored) (\<lambda>t. thenE (getState t (currentNodeId t))
          (\<lambda>state. Inr (\<lparr>c_tool = ''pen'', c_penSize = ''5'', c_lines = [],
               c_color = DEFAULT_THEME_colors_red_5, mousePos = (0, 0), isDrawing = False,
               undoStack = [], trrack = initializeTrrack env initialState, answer = None\<rparr>
             \<lparr>c_lines := lines state,
              c_tool := orElse (tool state) ''pen'',
              c_penSize := orElse (penSize state) ''5'',
              c_color := orElse (color state) DEFAULT_THEME_colors_red_5,
              trrack := t\<rparr>))) = Inr s"
    unfolding Canvas_mount_def Let_def imp_def by (auto split: option.splits)
  then obtain t where i: "imp stored = Inr t" by (cases "imp stored") (simp_all add: thenE_def)
  with m obtain st where g: "getState t (currentNodeId t) = Inr st"
    by (cases "getState t (currentNodeId t)") (simp_all add: thenE_def)
  from m i g have s: "trrack s = t" by (auto simp: thenE_def)
  from i have "wellFormed t"
    unfolding imp_def
    by (auto simp: importObject_def wellFormed_initializeTrrack split: option.splits if_splits)
  with g s show ?thesis by (simp add: isOK_def)
qed

lemma session_invariant:
  assumes "Canvas_mount env responseId answers' = Inr s"
    and "run num evs s = Inr s'"
    and "distinct (eventIds evs)"
    and "set (eventIds evs) \<inter> fst ` set (nodes (trrack s)) = {}"
  shows "wellFormed (trrack s') \<and> isOK (getState (trrack s') (currentNodeId (trrack s')))"
  using run_invariant [OF assms(2) _ _ assms(3,4)] mount_invariant [OF assms(1)] by blast


section \<open>The bound on the walk\<close>

text \<open>
  A walk to the root that ends visits no node twice, so it ends within as many steps as
  the graph has nodes: the bound in \<open>resolveState\<close> and in the navigator cuts off
  only walks that go around a cycle.
\<close>

lemma ancestry_exact: "ancestry f ns i = Inr ch \<Longrightarrow> ancestry (length ch) ns i = Inr ch"
proof (induction f arbitrary: i ch)
  case 0
  then show ?case by simp
next
  case (Suc f)
  from Suc.prems obtain n where n: "map_of ns i = Some n"
    and c: "case parentId n of None \<Rightarrow> ch = [(i, n)]
            | Some p \<Rightarrow> \<exists>ch'. ancestry f ns p = Inr ch' \<and> ch = (i, n) # ch'"
    unfolding ancestry_Suc_iff by blast
  show ?case
  proof (cases "parentId n")
    case None
    with c have ch: "ch = [(i, n)]" by simp
    from n None show ?thesis unfolding ch by simp
  next
    case (Some p)
    with c obtain ch' where a: "ancestry f ns p = Inr ch'" and ch: "ch = (i, n) # ch'"
      by auto
    from Suc.IH [OF a] have "ancestry (length ch') ns p = Inr ch'" .
    with n Some have "ancestry (Suc (length ch')) ns i = Inr ((i, n) # ch')"
      unfolding ancestry_Suc_iff by simp
    then show ?thesis unfolding ch by simp
  qed
qed

lemma ancestry_unique:
  assumes "ancestry f ns i = Inr ch" and "ancestry f' ns i = Inr ch'"
  shows "ch = ch'"
proof -
  from ancestry_mono [OF assms(1), of f'] ancestry_mono [OF assms(2), of f]
  show ?thesis by (simp add: add.commute)
qed

lemma ancestry_distinct: "ancestry f ns i = Inr ch \<Longrightarrow> distinct (map fst ch)"
proof (induction f arbitrary: i ch)
  case 0
  then show ?case by simp
next
  case (Suc f)
  from Suc.prems obtain n where n: "map_of ns i = Some n"
    and c: "case parentId n of None \<Rightarrow> ch = [(i, n)]
            | Some p \<Rightarrow> \<exists>ch'. ancestry f ns p = Inr ch' \<and> ch = (i, n) # ch'"
    unfolding ancestry_Suc_iff by blast
  show ?case
  proof (cases "parentId n")
    case None
    with c show ?thesis by simp
  next
    case (Some p)
    with c obtain ch' where a: "ancestry f ns p = Inr ch'" and ch: "ch = (i, n) # ch'"
      by auto
    have "i \<notin> fst ` set ch'"
    proof
      assume "i \<in> fst ` set ch'"
      from ancestry_member [OF a this] obtain pre post where
        e: "ch' = pre @ post" and b: "ancestry f ns i = Inr post" by blast
      from ancestry_unique [OF b Suc.prems] have "post = (i, n) # pre @ post"
        unfolding ch e .
      then have "length post = length ((i, n) # pre @ post)" by (rule arg_cong)
      then show False by simp
    qed
    with Suc.IH [OF a] show ?thesis unfolding ch by simp
  qed
qed

lemma ancestry_ids: "ancestry f ns i = Inr ch \<Longrightarrow> set (map fst ch) \<subseteq> fst ` set ns"
proof
  fix t
  assume a: "ancestry f ns i = Inr ch" and "t \<in> set (map fst ch)"
  then obtain n where "(t, n) \<in> set ch" by auto
  from ancestry_lookup [OF a this] have "map_of ns t = Some n" .
  then have "(t, n) \<in> set ns" by (rule map_of_SomeD)
  then show "t \<in> fst ` set ns" by force
qed

lemma ancestry_length: "ancestry f ns i = Inr ch \<Longrightarrow> length ch \<le> length ns"
proof -
  assume a: "ancestry f ns i = Inr ch"
  have "length ch = card (set (map fst ch))"
    using distinct_card [OF ancestry_distinct [OF a]] by simp
  also have "\<dots> \<le> card (fst ` set ns)"
    using ancestry_ids [OF a] by (intro card_mono) simp_all
  also have "\<dots> \<le> card (set ns)" by (intro card_image_le) simp
  also have "\<dots> \<le> length ns" by (rule card_length)
  finally show ?thesis .
qed

lemma ancestry_fuel:
  assumes "ancestry f ns i = Inr ch"
  shows "ancestry (length ns) ns i = Inr ch"
proof -
  from ancestry_mono [OF ancestry_exact [OF assms], of "length ns - length ch"]
    ancestry_length [OF assms]
  show ?thesis by simp
qed

lemma navigator_fuel:
  assumes "ancestry f ns i = Inr ch"
  shows "\<exists>t. findLastNonEphemeralAncestor (length ns) ns i k = Inr t"
  using findLast_total [OF ancestry_fuel [OF assms], of k] by blast

section \<open>The throttle\<close>

lemmas timed_defs = env100_def env120_def env150_def ex_samples_def ex_sampled_def ex_draws_def
  throttle_wait_def throttle_fresh_def throttleOpen_def debouncedApply_def
  throttle_timerExpired_def handleMouseMove_throttled_def isDrawNode_def drawNodes_def
  since_def goodDraw_def

text \<open>The timed stroke is a run of the handlers and the throttle.\<close>

lemma ex_sampled_run:
  "timedRun (\<lambda>s. 5) ex_samples (ex_down2, throttle_fresh) =
     Inr (ex_sampled, \<lparr>lastInvoke = Some 150, deferred = None\<rparr>)"
  by (simp add: timed_defs ex_defs model_defs)

text \<open>
  The throttled handler is the pointer-move handler of the untimed session with the
  throttle's decision computed from the clock.
\<close>

lemma handleMouseMove_throttled_eq:
  "handleMouseMove_throttled env e (s, th) =
     thenE (handleMouseMove (throttleOpen th (now env)) env e s)
       (\<lambda>s'. Inr (s',
          if isDrawing s
          then (if throttleOpen th (now env)
                then \<lparr>lastInvoke = Some (now env), deferred = None\<rparr>
                else th\<lparr>deferred := Some (c_lines s')\<rparr>)
          else th))"
  by (auto simp: handleMouseMove_throttled_def handleMouseMove_def thenE_def Let_def
      debouncedApply_def debouncedApply_fn_def
      split: PointerEvent.splits option.splits)

text \<open>
  No handler other than the pointer-move handler appends a node labelled \<^verbatim>\<open>'drawing'\<close>.
\<close>

lemma drawNodes_append: "drawNodes (xs @ ys) = drawNodes xs @ drawNodes ys"
  by (simp add: drawNodes_def)

lemma drawNodes_Nil: "drawNodes [] = []"
  by (simp add: drawNodes_def)

lemma drawNodes_apply:
  "drawNodes [(i, \<lparr>parentId = p, label = lbl, invocation = a, kind = k, timestamp = t\<rparr>)] =
     (if lbl = ''drawing''
      then [\<lparr>parentId = p, label = lbl, invocation = a, kind = k, timestamp = t\<rparr>] else [])"
  by (simp add: drawNodes_def isDrawNode_def)

lemma step_nodraw:
  assumes "step num ev s = Inr s'" and "\<not> isBurstEvent ev"
  shows "\<exists>extra. nodes (trrack s') = nodes (trrack s) @ extra \<and> drawNodes extra = []"
proof -
  have same: "trrack s' = trrack s \<Longrightarrow> ?thesis"
    by (intro exI [of _ "[]"]) (simp add: drawNodes_Nil)
  have app: "trrack s' = trrack_apply env lbl action e (trrack s) \<Longrightarrow> lbl \<noteq> ''drawing'' \<Longrightarrow> ?thesis"
    for env lbl action e
    by (simp add: nodes_apply drawNodes_apply)
  show ?thesis
  proof (cases ev)
    case (MouseDown e)
    with assms have "trrack s' = trrack s"
      by (auto simp: handleMouseDown_def split: PointerEvent.splits option.splits)
    then show ?thesis by (rule same)
  next
    case (MouseMove b env e)
    with assms(2) show ?thesis by simp
  next
    case (ThrottleTrailing env l)
    with assms(2) show ?thesis by simp
  next
    case (MouseUp env)
    with assms have "trrack s' = trrack_apply env ''draw end'' (actions_drawEnd (c_lines s)) False (trrack s)"
      by (auto simp: handleMouseUp_def Let_def)
    then show ?thesis by (rule app) simp
  next
    case (ClearClick env)
    with assms have "trrack s' = trrack_apply env ''clear'' (actions_clear []) False (trrack s)"
      by (auto simp: clear_onClick_def)
    then show ?thesis by (rule app) simp
  next
    case (UndoClick env)
    with assms have "trrack s' = trrack s \<or>
        (\<exists>l. trrack s' = trrack_apply env ''undo'' (actions_undo l) True (trrack s))"
      by (auto simp: undo_onClick_def thenE_def Let_def split: sum.splits option.splits if_splits)
    then show ?thesis
    proof
      assume "trrack s' = trrack s"
      then show ?thesis by (rule same)
    next
      assume "\<exists>l. trrack s' = trrack_apply env ''undo'' (actions_undo l) True (trrack s)"
      then obtain l where "trrack s' = trrack_apply env ''undo'' (actions_undo l) True (trrack s)" ..
      then show ?thesis by (rule app) simp
    qed
  next
    case (RedoClick env)
    with assms have "trrack s' = trrack s \<or>
        (\<exists>l. trrack s' = trrack_apply env ''redo'' (actions_undo l) True (trrack s))"
      by (auto simp: redo_onClick_def redo_disabled_def thenE_def split: sum.splits if_splits)
    then show ?thesis
    proof
      assume "trrack s' = trrack s"
      then show ?thesis by (rule same)
    next
      assume "\<exists>l. trrack s' = trrack_apply env ''redo'' (actions_undo l) True (trrack s)"
      then obtain l where "trrack s' = trrack_apply env ''redo'' (actions_undo l) True (trrack s)" ..
      then show ?thesis by (rule app) simp
    qed
  next
    case (ToolChange v)
    with assms have "trrack s' = trrack s" by (auto simp: setTool_def)
    then show ?thesis by (rule same)
  next
    case (PenSizeChange v)
    with assms have "trrack s' = trrack s" by (auto simp: setPenSize_def)
    then show ?thesis by (rule same)
  next
    case (ColorChange v)
    with assms have "trrack s' = trrack s" by (auto simp: onColorChange_def)
    then show ?thesis by (rule same)
  next
    case (ProvenanceState ps)
    with assms have "trrack s' = trrack s" by (auto simp: provenanceState_effect_def)
    then show ?thesis by (rule same)
  qed
qed

text \<open>
  A step of the timed session either appends no draw node and keeps the time of the last
  invocation, or appends one ephemeral draw node, on an open throttle, whose timestamp
  becomes the time of the last invocation.
\<close>

lemma handleMouseMove_throttled_cases:
  assumes "handleMouseMove_throttled env e (s, th) = Inr (s', th')"
  shows "(trrack s' = trrack s \<and> lastInvoke th' = lastInvoke th \<and>
          (deferred th' = deferred th \<or> deferred th' = Some (c_lines s'))) \<or>
         (trrack s' = trrack_apply env ''drawing''
            \<lparr>mutatorName = ''draw'', parameters = c_lines s'\<rparr> True (trrack s) \<and>
          throttleOpen th (now env) \<and>
          th' = \<lparr>lastInvoke = Some (now env), deferred = None\<rparr>)"
proof -
  from assms obtain s1 where h: "handleMouseMove (throttleOpen th (now env)) env e s = Inr s1"
    and e: "s' = s1"
    and t: "th' = (if isDrawing s
          then (if throttleOpen th (now env)
                then \<lparr>lastInvoke = Some (now env), deferred = None\<rparr>
                else th\<lparr>deferred := Some (c_lines s1)\<rparr>)
          else th)"
    unfolding handleMouseMove_throttled_eq by (auto simp: thenE_def split: sum.splits)
  show ?thesis
  proof (cases "isDrawing s \<and> throttleOpen th (now env)")
    case True
    with h have "trrack s1 = trrack_apply env ''drawing'' (actions_draw (c_lines s1)) True (trrack s)"
      by (auto simp: handleMouseMove_def thenE_def Let_def debouncedApply_fn_def
          split: PointerEvent.splits option.splits if_splits)
    with True t e show ?thesis by (simp add: actions_draw_def handle_def)
  next
    case False
    with h have "trrack s1 = trrack s"
      by (auto simp: handleMouseMove_def thenE_def Let_def debouncedApply_fn_def
          split: PointerEvent.splits option.splits if_splits)
    with False t e show ?thesis by auto
  qed
qed

lemma throttle_timerExpired_cases:
  "(throttle_timerExpired env (s, th) = (s, th)) \<or>
   (\<exists>l. deferred th = Some l \<and> throttleOpen th (now env) \<and>
      throttle_timerExpired env (s, th) =
        (s\<lparr>trrack := trrack_apply env ''drawing'' \<lparr>mutatorName = ''draw'', parameters = l\<rparr> True
           (trrack s)\<rparr>,
         \<lparr>lastInvoke = Some (now env), deferred = None\<rparr>))"
  by (auto simp: throttle_timerExpired_def debouncedApply_fn_def actions_draw_def handle_def
      split: option.splits)

lemma since_open: "throttleOpen th t \<Longrightarrow> spaced throttle_wait (t # ts) \<Longrightarrow>
   spaced throttle_wait (since th @ t # ts)"
  by (auto simp: throttleOpen_def since_def split: option.splits)

lemma timedStep_effect:
  assumes "timedStep num ev (s, th) = Inr (s', th')" and "isTimed ev"
  shows "(\<exists>extra. nodes (trrack s') = nodes (trrack s) @ extra \<and> drawNodes extra = [] \<and>
            lastInvoke th' = lastInvoke th) \<or>
         (\<exists>i n. nodes (trrack s') = nodes (trrack s) @ [(i, n)] \<and> isDrawNode n \<and> goodDraw n \<and>
            throttleOpen th (timestamp n) \<and> lastInvoke th' = Some (timestamp n))"
proof (cases ev)
  case (PointerMove env e)
  with assms have "handleMouseMove_throttled env e (s, th) = Inr (s', th')" by simp
  from handleMouseMove_throttled_cases [OF this] show ?thesis
  proof
    assume "trrack s' = trrack s \<and> lastInvoke th' = lastInvoke th \<and>
          (deferred th' = deferred th \<or> deferred th' = Some (c_lines s'))"
    then have "nodes (trrack s') = nodes (trrack s) @ [] \<and> drawNodes [] = [] \<and>
        lastInvoke th' = lastInvoke th" by (simp add: drawNodes_Nil)
    then show ?thesis by blast
  next
    assume a: "trrack s' = trrack_apply env ''drawing''
            \<lparr>mutatorName = ''draw'', parameters = c_lines s'\<rparr> True (trrack s) \<and>
          throttleOpen th (now env) \<and>
          th' = \<lparr>lastInvoke = Some (now env), deferred = None\<rparr>"
    let ?n = "\<lparr>parentId = Some (currentNodeId (trrack s)), label = ''drawing'',
        invocation = Some \<lparr>mutatorName = ''draw'', parameters = c_lines s'\<rparr>,
        kind = Ephemeral, timestamp = now env\<rparr>"
    from a have "nodes (trrack s') = nodes (trrack s) @ [(newId env, ?n)] \<and> isDrawNode ?n \<and>
        goodDraw ?n \<and> throttleOpen th (timestamp ?n) \<and> lastInvoke th' = Some (timestamp ?n)"
      by (simp add: nodes_apply isDrawNode_def goodDraw_def)
    then show ?thesis by blast
  qed
next
  case (TimerExpired env)
  with assms have r: "throttle_timerExpired env (s, th) = (s', th')" by simp
  from throttle_timerExpired_cases [of env s th] show ?thesis
  proof
    assume "throttle_timerExpired env (s, th) = (s, th)"
    with r have "nodes (trrack s') = nodes (trrack s) @ [] \<and> drawNodes [] = [] \<and>
        lastInvoke th' = lastInvoke th" by (simp add: drawNodes_Nil)
    then show ?thesis by blast
  next
    assume "\<exists>l. deferred th = Some l \<and> throttleOpen th (now env) \<and>
      throttle_timerExpired env (s, th) =
        (s\<lparr>trrack := trrack_apply env ''drawing'' \<lparr>mutatorName = ''draw'', parameters = l\<rparr> True
           (trrack s)\<rparr>,
         \<lparr>lastInvoke = Some (now env), deferred = None\<rparr>)"
    then obtain l where o: "throttleOpen th (now env)"
      and x: "throttle_timerExpired env (s, th) =
        (s\<lparr>trrack := trrack_apply env ''drawing'' \<lparr>mutatorName = ''draw'', parameters = l\<rparr> True
           (trrack s)\<rparr>,
         \<lparr>lastInvoke = Some (now env), deferred = None\<rparr>)" by blast
    let ?n = "\<lparr>parentId = Some (currentNodeId (trrack s)), label = ''drawing'',
        invocation = Some \<lparr>mutatorName = ''draw'', parameters = l\<rparr>,
        kind = Ephemeral, timestamp = now env\<rparr>"
    from r x o have "nodes (trrack s') = nodes (trrack s) @ [(newId env, ?n)] \<and> isDrawNode ?n \<and>
        goodDraw ?n \<and> throttleOpen th (timestamp ?n) \<and> lastInvoke th' = Some (timestamp ?n)"
      by (auto simp: nodes_apply isDrawNode_def goodDraw_def)
    then show ?thesis by blast
  qed
next
  case (Untimed e)
  with assms obtain s1 where st: "step num e s = Inr s1" and e: "s' = s1" "th' = th"
    by (auto simp: thenE_def split: sum.splits)
  from assms(2) Untimed have "\<not> isBurstEvent e" by simp
  from step_nodraw [OF st this] e show ?thesis by blast
qed

text \<open>The draw nodes of a timed session are spaced by the wait.\<close>

lemma timedRun_spaced:
  assumes "timedRun num evs (s, th) = Inr (s', th')" and "list_all isTimed evs"
  shows "\<exists>new. nodes (trrack s') = nodes (trrack s) @ new \<and>
           list_all goodDraw (drawNodes new) \<and>
           spaced throttle_wait (since th @ map timestamp (drawNodes new))"
  using assms
proof (induction evs arbitrary: s th)
  case Nil
  then have "nodes (trrack s') = nodes (trrack s) @ [] \<and> list_all goodDraw (drawNodes []) \<and>
      spaced throttle_wait (since th @ map timestamp (drawNodes []))"
    by (simp add: drawNodes_Nil since_def split: option.splits)
  then show ?case by blast
next
  case (Cons ev evs)
  from Cons.prems(1) obtain s1 th1 where s1: "timedStep num ev (s, th) = Inr (s1, th1)"
    and r: "timedRun num evs (s1, th1) = Inr (s', th')"
    by (cases "timedStep num ev (s, th)") (auto simp: thenE_def)
  from Cons.prems(2) have ti: "isTimed ev" and tis: "list_all isTimed evs" by simp_all
  from Cons.IH [OF r tis] obtain new1 where
    n1: "nodes (trrack s') = nodes (trrack s1) @ new1"
    and g1: "list_all goodDraw (drawNodes new1)"
    and sp1: "spaced throttle_wait (since th1 @ map timestamp (drawNodes new1))" by blast
  from timedStep_effect [OF s1 ti] show ?case
  proof
    assume "\<exists>extra. nodes (trrack s1) = nodes (trrack s) @ extra \<and> drawNodes extra = [] \<and>
            lastInvoke th1 = lastInvoke th"
    then obtain extra where x: "nodes (trrack s1) = nodes (trrack s) @ extra"
      and d: "drawNodes extra = []" and l: "lastInvoke th1 = lastInvoke th" by blast
    from l have "since th1 = since th" by (simp add: since_def)
    with n1 g1 sp1 x d have "nodes (trrack s') = nodes (trrack s) @ (extra @ new1) \<and>
        list_all goodDraw (drawNodes (extra @ new1)) \<and>
        spaced throttle_wait (since th @ map timestamp (drawNodes (extra @ new1)))"
      by (simp add: drawNodes_append)
    then show ?thesis by blast
  next
    assume "\<exists>i n. nodes (trrack s1) = nodes (trrack s) @ [(i, n)] \<and> isDrawNode n \<and> goodDraw n \<and>
            throttleOpen th (timestamp n) \<and> lastInvoke th1 = Some (timestamp n)"
    then obtain i n where x: "nodes (trrack s1) = nodes (trrack s) @ [(i, n)]"
      and d: "isDrawNode n" and g: "goodDraw n" and o: "throttleOpen th (timestamp n)"
      and l: "lastInvoke th1 = Some (timestamp n)" by blast
    from l have si: "since th1 = [timestamp n]" by (simp add: since_def)
    from d have dn: "drawNodes ([(i, n)] @ new1) = n # drawNodes new1"
      by (simp add: drawNodes_def)
    from sp1 have "spaced throttle_wait (timestamp n # map timestamp (drawNodes new1))"
      unfolding si by simp
    from since_open [OF o this]
    have "spaced throttle_wait (since th @ map timestamp (drawNodes ([(i, n)] @ new1)))"
      unfolding dn by simp
    moreover have "list_all goodDraw (drawNodes ([(i, n)] @ new1))"
      unfolding dn using g g1 by simp
    moreover have "nodes (trrack s') = nodes (trrack s) @ ([(i, n)] @ new1)"
      using n1 x by simp
    ultimately show ?thesis by blast
  qed
qed

text \<open>Pointer moves and timer runs append draw nodes only.\<close>

lemma timedStep_pointer:
  assumes "timedStep num ev (s, th) = Inr (s', th')" and "isPointerSample ev"
  shows "nodes (trrack s') = nodes (trrack s) \<or>
         (\<exists>i n. nodes (trrack s') = nodes (trrack s) @ [(i, n)] \<and> isDrawNode n)"
proof (cases ev)
  case (PointerMove env e)
  with assms have "handleMouseMove_throttled env e (s, th) = Inr (s', th')" by simp
  from handleMouseMove_throttled_cases [OF this] show ?thesis
    by (auto simp: nodes_apply isDrawNode_def)
next
  case (TimerExpired env)
  with assms have r: "throttle_timerExpired env (s, th) = (s', th')" by simp
  from throttle_timerExpired_cases [of env s th] r show ?thesis
    by (auto simp: nodes_apply isDrawNode_def)
next
  case (Untimed e)
  with assms(2) show ?thesis by simp
qed

lemma timedRun_pointer:
  assumes "timedRun num evs (s, th) = Inr (s', th')" and "list_all isPointerSample evs"
  shows "\<exists>new. nodes (trrack s') = nodes (trrack s) @ new \<and> drawNodes new = map snd new"
  using assms
proof (induction evs arbitrary: s th)
  case Nil
  then have "nodes (trrack s') = nodes (trrack s) @ [] \<and> drawNodes [] = map snd []"
    by (simp add: drawNodes_Nil)
  then show ?case by blast
next
  case (Cons ev evs)
  from Cons.prems(1) obtain s1 th1 where s1: "timedStep num ev (s, th) = Inr (s1, th1)"
    and r: "timedRun num evs (s1, th1) = Inr (s', th')"
    by (cases "timedStep num ev (s, th)") (auto simp: thenE_def)
  from Cons.prems(2) have ti: "isPointerSample ev" and tis: "list_all isPointerSample evs"
    by simp_all
  from Cons.IH [OF r tis] obtain new1 where
    n1: "nodes (trrack s') = nodes (trrack s1) @ new1"
    and d1: "drawNodes new1 = map snd new1" by blast
  from timedStep_pointer [OF s1 ti] show ?case
  proof
    assume "nodes (trrack s1) = nodes (trrack s)"
    with n1 d1 show ?thesis by auto
  next
    assume "\<exists>i n. nodes (trrack s1) = nodes (trrack s) @ [(i, n)] \<and> isDrawNode n"
    then obtain i n where x: "nodes (trrack s1) = nodes (trrack s) @ [(i, n)]"
      and d: "isDrawNode n" by blast
    from d d1 have "drawNodes ([(i, n)] @ new1) = map snd ([(i, n)] @ new1)"
      by (simp add: drawNodes_def)
    moreover have "nodes (trrack s') = nodes (trrack s) @ ([(i, n)] @ new1)"
      using n1 x by simp
    ultimately show ?thesis by blast
  qed
qed

section \<open>Undo\<close>

text \<open>
  What the undo handler does. For every click of the undo icon while the current node
  is a state node (on a graph whose current node resolves), undo computes its target as
  the durable ancestor reached after skipping \<open>undoStack.length + 1\<close> durable steps from
  the current node (a durable node, or the root once the history is exhausted), resolves
  that target's state, pushes the current node's id onto the undo stack, appends a new
  ephemeral node whose invocation is the \<open>undo\<close> mutator carrying the target's resolved
  lines, and sets the working lines to the target's resolved lines; with a fresh id the
  new node resolves to the target's state. When the state is the one reached by a burst
  (pointer moves and deferred throttle runs, each appending an ephemeral draw node or
  none) followed by one durable apply (a pointer up or a clear), with fresh ids
  throughout and the undo stack empty before the burst or emptied by it (its first event
  is a pointer move while drawing), the undo stack is empty and the target is the
  nearest durable ancestor of the node that was current before the burst: a node of
  the graph before the burst, with the state it had there, and none of the nodes of the
  burst.
\<close>

theorem undo_onClick_spec:
  assumes cur: "getNode (trrack s) (currentNodeId (trrack s)) = Some current"
    and sn: "isStateNode current"
    and ok: "isOK (getState (trrack s) (currentNodeId (trrack s)))"
  shows "\<exists>target tnode prevState.
      getLastNNonEphemeralNode (trrack s) (length (undoStack s) + 1) = Inr target \<and>
      getNode (trrack s) target = Some tnode \<and> (kind tnode = Durable \<or> isRootNode tnode) \<and>
      getState (trrack s) target = Inr prevState \<and>
      undo_onClick env s =
        Inr (s\<lparr>trrack := (trrack s)
                \<lparr>nodes := nodes (trrack s) @
                   [(newId env, \<lparr>parentId = Some (currentNodeId (trrack s)), label = ''undo'',
                      invocation = Some \<lparr>mutatorName = ''undo'', parameters = lines prevState\<rparr>,
                      kind = Ephemeral, timestamp = now env\<rparr>)],
                 currentNodeId := newId env\<rparr>,
               c_lines := lines prevState,
               undoStack := undoStack s @ [currentNodeId (trrack s)]\<rparr>) \<and>
      (newId env \<notin> fst ` set (nodes (trrack s)) \<longrightarrow>
         getState (trrack_apply env ''undo'' (actions_undo (lines prevState)) True (trrack s))
           (newId env) = Inr prevState) \<and>
      (\<forall>num s0 evs s1 envUp.
         isOK (getState (trrack s0) (currentNodeId (trrack s0))) \<and>
         list_all isBurstEvent evs \<and>
         (undoStack s0 = [] \<or>
          (isDrawing s0 \<and> (\<exists>b envM e0 rest. evs = MouseMove b envM e0 # rest))) \<and>
         distinct (eventIds evs @ [newId envUp]) \<and>
         set (eventIds evs @ [newId envUp]) \<inter> fst ` set (nodes (trrack s0)) = {} \<and>
         run num evs s0 = Inr s1 \<and>
         (s = handleMouseUp envUp s1 \<or> s = clear_onClick envUp s1) \<longrightarrow>
         undoStack s = [] \<and>
         getLastNNonEphemeralNode (trrack s0) 0 = Inr target \<and>
         getState (trrack s0) target = Inr prevState \<and>
         target \<in> fst ` set (nodes (trrack s0)) \<and>
         target \<notin> set (eventIds evs @ [newId envUp]))"
proof -
  from ok obtain st where st: "getState (trrack s) (currentNodeId (trrack s)) = Inr st"
    unfolding isOK_iff ..
  from navigator_total [OF st, of "length (undoStack s) + 1"] obtain target tnode prevState where
    t: "getLastNNonEphemeralNode (trrack s) (length (undoStack s) + 1) = Inr target"
    and n: "getNode (trrack s) target = Some tnode"
    and d: "kind tnode = Durable \<or> isRootNode tnode"
    and p: "getState (trrack s) target = Inr prevState" by blast
  have click: "undo_onClick env s =
        Inr (s\<lparr>trrack := (trrack s)
                \<lparr>nodes := nodes (trrack s) @
                   [(newId env, \<lparr>parentId = Some (currentNodeId (trrack s)), label = ''undo'',
                      invocation = Some \<lparr>mutatorName = ''undo'', parameters = lines prevState\<rparr>,
                      kind = Ephemeral, timestamp = now env\<rparr>)],
                 currentNodeId := newId env\<rparr>,
               c_lines := lines prevState,
               undoStack := undoStack s @ [currentNodeId (trrack s)]\<rparr>)"
    using t cur sn p
    by (simp add: undo_onClick_def thenE_def trrack_apply_def actions_undo_def handle_def Let_def)
  have new: "newId env \<notin> fst ` set (nodes (trrack s)) \<longrightarrow>
         getState (trrack_apply env ''undo'' (actions_undo (lines prevState)) True (trrack s))
           (newId env) = Inr prevState"
  proof
    assume fresh: "newId env \<notin> fst ` set (nodes (trrack s))"
    have "map_of registry (mutatorName (actions_undo (lines prevState))) = Some undo_fn"
      by (simp add: actions_undo_def handle_def undo_registered)
    from getState_apply_new [OF fresh st this, of "''undo''" True]
    show "getState (trrack_apply env ''undo'' (actions_undo (lines prevState)) True (trrack s))
           (newId env) = Inr prevState"
      by (simp add: actions_undo_def handle_def undo_replay [OF st p])
  qed
  have burst: "\<forall>num s0 evs s1 envUp.
         isOK (getState (trrack s0) (currentNodeId (trrack s0))) \<and>
         list_all isBurstEvent evs \<and>
         (undoStack s0 = [] \<or>
          (isDrawing s0 \<and> (\<exists>b envM e0 rest. evs = MouseMove b envM e0 # rest))) \<and>
         distinct (eventIds evs @ [newId envUp]) \<and>
         set (eventIds evs @ [newId envUp]) \<inter> fst ` set (nodes (trrack s0)) = {} \<and>
         run num evs s0 = Inr s1 \<and>
         (s = handleMouseUp envUp s1 \<or> s = clear_onClick envUp s1) \<longrightarrow>
         undoStack s = [] \<and>
         getLastNNonEphemeralNode (trrack s0) 0 = Inr target \<and>
         getState (trrack s0) target = Inr prevState \<and>
         target \<in> fst ` set (nodes (trrack s0)) \<and>
         target \<notin> set (eventIds evs @ [newId envUp])"
  proof (intro allI impI)
    fix num s0 evs s1 envUp
    assume H: "isOK (getState (trrack s0) (currentNodeId (trrack s0))) \<and>
         list_all isBurstEvent evs \<and>
         (undoStack s0 = [] \<or>
          (isDrawing s0 \<and> (\<exists>b envM e0 rest. evs = MouseMove b envM e0 # rest))) \<and>
         distinct (eventIds evs @ [newId envUp]) \<and>
         set (eventIds evs @ [newId envUp]) \<inter> fst ` set (nodes (trrack s0)) = {} \<and>
         run num evs s0 = Inr s1 \<and>
         (s = handleMouseUp envUp s1 \<or> s = clear_onClick envUp s1)"
    then have h1: "isOK (getState (trrack s0) (currentNodeId (trrack s0)))"
      and h2: "list_all isBurstEvent evs"
      and h3: "undoStack s0 = [] \<or>
          (isDrawing s0 \<and> (\<exists>b envM e0 rest. evs = MouseMove b envM e0 # rest))"
      and h4: "distinct (eventIds evs @ [newId envUp])"
      and dj: "set (eventIds evs @ [newId envUp]) \<inter> fst ` set (nodes (trrack s0)) = {}"
      and h5: "run num evs s0 = Inr s1"
      and h6: "s = handleMouseUp envUp s1 \<or> s = clear_onClick envUp s1"
      by blast+
    from h1 h2 h3 h4 dj h5 h6 have "\<exists>t st. getLastNNonEphemeralNode (trrack s0) 0 = Inr t \<and>
           getState (trrack s0) t = Inr st \<and> t \<in> fst ` set (nodes (trrack s0)) \<and>
           undoStack s = [] \<and>
           getLastNNonEphemeralNode (trrack s) (Suc 0) = Inr t \<and>
           getState (trrack s) t = Inr st"
      by (rule burst_then_durable)
    then obtain t0 st0 where t0: "getLastNNonEphemeralNode (trrack s0) 0 = Inr t0"
      and st0: "getState (trrack s0) t0 = Inr st0" and m: "t0 \<in> fst ` set (nodes (trrack s0))"
      and u: "undoStack s = []"
      and t1: "getLastNNonEphemeralNode (trrack s) (Suc 0) = Inr t0"
      and st1: "getState (trrack s) t0 = Inr st0"
      by blast
    from t u t1 have e: "target = t0" by simp
    with p st1 have e': "prevState = st0" by simp
    from m dj have "t0 \<notin> set (eventIds evs @ [newId envUp])" by blast
    with u t0 st0 m e e'
    show "undoStack s = [] \<and>
         getLastNNonEphemeralNode (trrack s0) 0 = Inr target \<and>
         getState (trrack s0) target = Inr prevState \<and>
         target \<in> fst ` set (nodes (trrack s0)) \<and>
         target \<notin> set (eventIds evs @ [newId envUp])"
      by simp
  qed
  from t n d p click new burst show ?thesis by blast
qed

theorem undo_onClick_spec_witness:
  "getNode (trrack ex_stroke2) (currentNodeId (trrack ex_stroke2)) = Some ex_drawEnd2 \<and>
   isStateNode ex_drawEnd2 \<and>
   isOK (getState (trrack ex_stroke2) (currentNodeId (trrack ex_stroke2))) \<and>
   newId env7 \<notin> fst ` set (nodes (trrack ex_stroke2)) \<and>
   isOK (getState (trrack ex_down2) (currentNodeId (trrack ex_down2))) \<and>
   list_all isBurstEvent (MouseMove True env3 (Stage (Some (4, 4))) # ex_rest) \<and>
   isDrawing ex_down2 \<and>
   distinct (eventIds (MouseMove True env3 (Stage (Some (4, 4))) # ex_rest) @ [newId env6]) \<and>
   set (eventIds (MouseMove True env3 (Stage (Some (4, 4))) # ex_rest) @ [newId env6]) \<inter>
     fst ` set (nodes (trrack ex_down2)) = {} \<and>
   run (\<lambda>s. 5) (MouseMove True env3 (Stage (Some (4, 4))) # ex_rest) ex_down2 = Inr ex_burst \<and>
   ex_stroke2 = handleMouseUp env6 ex_burst \<and>
   map fst (nodes (trrack ex_stroke2)) = [''n0'', ''n1'', ''n2'', ''n3'', ''n5'', ''n6''] \<and>
   getLastNNonEphemeralNode (trrack ex_down2) 0 = Inr ''n2'' \<and>
   getLastNNonEphemeralNode (trrack ex_stroke2) (length (undoStack ex_stroke2) + 1) = Inr ''n2'' \<and>
   getState (trrack ex_stroke2) ''n2'' = Inr ex_state \<and>
   undo_onClick env7 ex_stroke2 =
     Inr (ex_stroke2
       \<lparr>trrack := trrack_apply env7 ''undo'' (actions_undo [ex_line]) True (trrack ex_stroke2),
        c_lines := [ex_line], undoStack := [''n6'']\<rparr>) \<and>
   getState (trrack_apply env7 ''undo'' (actions_undo [ex_line]) True (trrack ex_stroke2)) ''n7'' =
     Inr ex_state"
proof -
  have a: "getNode (trrack ex_stroke2) (currentNodeId (trrack ex_stroke2)) = Some ex_drawEnd2"
    by (simp add: ex_defs model_defs)
  have b: "isStateNode ex_drawEnd2"
    by (simp add: ex_defs model_defs)
  have c: "isOK (getState (trrack ex_stroke2) (currentNodeId (trrack ex_stroke2)))"
    by (simp add: ex_defs model_defs)
  have d: "newId env7 \<notin> fst ` set (nodes (trrack ex_stroke2))"
    by (simp add: ex_defs model_defs)
  have B0: "isOK (getState (trrack ex_down2) (currentNodeId (trrack ex_down2))) \<and>
     list_all isBurstEvent (MouseMove True env3 (Stage (Some (4, 4))) # ex_rest) \<and>
     isDrawing ex_down2 \<and>
     distinct (eventIds (MouseMove True env3 (Stage (Some (4, 4))) # ex_rest) @ [newId env6]) \<and>
     set (eventIds (MouseMove True env3 (Stage (Some (4, 4))) # ex_rest) @ [newId env6]) \<inter>
       fst ` set (nodes (trrack ex_down2)) = {} \<and>
     run (\<lambda>s. 5) (MouseMove True env3 (Stage (Some (4, 4))) # ex_rest) ex_down2 = Inr ex_burst \<and>
     ex_stroke2 = handleMouseUp env6 ex_burst"
    by (simp add: ex_defs model_defs eventIds_def)
  then have B: "isOK (getState (trrack ex_down2) (currentNodeId (trrack ex_down2))) \<and>
     list_all isBurstEvent (MouseMove True env3 (Stage (Some (4, 4))) # ex_rest) \<and>
     (undoStack ex_down2 = [] \<or>
      (isDrawing ex_down2 \<and>
       (\<exists>b envM e0 rest. MouseMove True env3 (Stage (Some (4, 4))) # ex_rest =
          MouseMove b envM e0 # rest))) \<and>
     distinct (eventIds (MouseMove True env3 (Stage (Some (4, 4))) # ex_rest) @ [newId env6]) \<and>
     set (eventIds (MouseMove True env3 (Stage (Some (4, 4))) # ex_rest) @ [newId env6]) \<inter>
       fst ` set (nodes (trrack ex_down2)) = {} \<and>
     run (\<lambda>s. 5) (MouseMove True env3 (Stage (Some (4, 4))) # ex_rest) ex_down2 = Inr ex_burst \<and>
     (ex_stroke2 = handleMouseUp env6 ex_burst \<or> ex_stroke2 = clear_onClick env6 ex_burst)"
    by blast
  have ids: "map fst (nodes (trrack ex_stroke2)) = [''n0'', ''n1'', ''n2'', ''n3'', ''n5'', ''n6'']"
    by (simp add: ex_defs model_defs)
  have e: "getLastNNonEphemeralNode (trrack ex_down2) 0 = Inr ''n2''"
    by (simp add: ex_defs model_defs)
  have f: "getState (trrack ex_stroke2) ''n2'' = Inr ex_state"
    by (simp add: ex_defs model_defs)
  have g: "currentNodeId (trrack ex_stroke2) = ''n6''" "lines ex_state = [ex_line]"
    "newId env7 = ''n7''"
    by (simp_all add: ex_defs model_defs)
  from undo_onClick_spec [OF a b c, of env7] obtain target tnode prevState where
    t: "getLastNNonEphemeralNode (trrack ex_stroke2) (length (undoStack ex_stroke2) + 1) = Inr target"
    and n: "getNode (trrack ex_stroke2) target = Some tnode"
    and k: "kind tnode = Durable \<or> isRootNode tnode"
    and p: "getState (trrack ex_stroke2) target = Inr prevState"
    and click: "undo_onClick env7 ex_stroke2 =
        Inr (ex_stroke2\<lparr>trrack := (trrack ex_stroke2)
                \<lparr>nodes := nodes (trrack ex_stroke2) @
                   [(newId env7, \<lparr>parentId = Some (currentNodeId (trrack ex_stroke2)), label = ''undo'',
                      invocation = Some \<lparr>mutatorName = ''undo'', parameters = lines prevState\<rparr>,
                      kind = Ephemeral, timestamp = now env7\<rparr>)],
                 currentNodeId := newId env7\<rparr>,
               c_lines := lines prevState,
               undoStack := undoStack ex_stroke2 @ [currentNodeId (trrack ex_stroke2)]\<rparr>)"
    and new: "newId env7 \<notin> fst ` set (nodes (trrack ex_stroke2)) \<longrightarrow>
         getState (trrack_apply env7 ''undo'' (actions_undo (lines prevState)) True (trrack ex_stroke2))
           (newId env7) = Inr prevState"
    and burst: "\<forall>num s0 evs s1 envUp.
         isOK (getState (trrack s0) (currentNodeId (trrack s0))) \<and>
         list_all isBurstEvent evs \<and>
         (undoStack s0 = [] \<or>
          (isDrawing s0 \<and> (\<exists>b envM e0 rest. evs = MouseMove b envM e0 # rest))) \<and>
         distinct (eventIds evs @ [newId envUp]) \<and>
         set (eventIds evs @ [newId envUp]) \<inter> fst ` set (nodes (trrack s0)) = {} \<and>
         run num evs s0 = Inr s1 \<and>
         (ex_stroke2 = handleMouseUp envUp s1 \<or> ex_stroke2 = clear_onClick envUp s1) \<longrightarrow>
         undoStack ex_stroke2 = [] \<and>
         getLastNNonEphemeralNode (trrack s0) 0 = Inr target \<and>
         getState (trrack s0) target = Inr prevState \<and>
         target \<in> fst ` set (nodes (trrack s0)) \<and>
         target \<notin> set (eventIds evs @ [newId envUp])"
    by (elim exE conjE) (rule that; assumption)
  from burst [rule_format, OF B] have u: "undoStack ex_stroke2 = []"
    and t0: "getLastNNonEphemeralNode (trrack ex_down2) 0 = Inr target" by simp_all
  from t0 e have tn: "target = ''n2''" by simp
  from p f tn have pe: "prevState = ex_state" by simp
  from click have click': "undo_onClick env7 ex_stroke2 =
     Inr (ex_stroke2
       \<lparr>trrack := trrack_apply env7 ''undo'' (actions_undo [ex_line]) True (trrack ex_stroke2),
        c_lines := [ex_line], undoStack := [''n6'']\<rparr>)"
    unfolding pe u by (simp add: trrack_apply_def actions_undo_def handle_def g)
  from new d have new': "getState (trrack_apply env7 ''undo'' (actions_undo [ex_line]) True (trrack ex_stroke2)) ''n7'' =
     Inr ex_state"
    unfolding pe g by simp
  from t tn have t': "getLastNNonEphemeralNode (trrack ex_stroke2) (length (undoStack ex_stroke2) + 1) = Inr ''n2''"
    by simp
  from a b c d B0 ids e t' f click' new' show ?thesis by (elim conjE) (intro conjI; assumption)
qed

text \<open>
  Claim C1. For every click of the undo icon while the current node is a state node,
  undo computes its target as the durable ancestor reached after skipping
  \<open>undoStack.length + 1\<close> durable steps from the current node, resolves it, pushes the
  current node's id, appends an ephemeral \<open>undo\<close> node carrying the target's resolved
  lines and sets the working lines to them; in particular, after a burst of \<open>N\<close>
  ephemeral draw applies followed by one durable apply, a single undo lands on the
  durable ancestor immediately preceding the burst. The first part is
  \<open>undo_onClick_spec\<close> above. The second part fails when the undo stack is not empty
  at the durable apply, since neither \<^verbatim>\<open>Clear all\<close> nor the pointer-up handler empties
  it. In the concrete session after the undo the stack is \<open>[n3]\<close> and the nearest
  durable node is the clear \<open>n3\<close>. After a second \<^verbatim>\<open>Clear all\<close> (\<open>N = 0\<close>), and after one
  deferred draw apply and a pointer up (\<open>N = 1\<close>), the stack is still \<open>[n3]\<close> and undo
  skips two durable nodes: it lands on the end of the first stroke, \<open>n2\<close>, not on
  \<open>n3\<close>.
\<close>

theorem undo_after_durable_apply_with_pending_redo:
  "undoStack ex_undone = [''n3''] \<and>
   getLastNNonEphemeralNode (trrack ex_undone) 0 = Inr ''n3'' \<and>
   undoStack ex_recleared = [''n3''] \<and>
   map fst (nodes (trrack ex_recleared)) = [''n0'', ''n1'', ''n2'', ''n3'', ''n4'', ''n5''] \<and>
   getLastNNonEphemeralNode (trrack ex_recleared) (length (undoStack ex_recleared) + 1) = Inr ''n2'' \<and>
   undo_onClick env6 ex_recleared =
     Inr (ex_recleared
       \<lparr>trrack := trrack_apply env6 ''undo'' (actions_undo [ex_line]) True (trrack ex_recleared),
        c_lines := [ex_line], undoStack := [''n3'', ''n5'']\<rparr>) \<and>
   undoStack ex_deferred_up = [''n3''] \<and>
   map fst (nodes (trrack ex_deferred_up)) = [''n0'', ''n1'', ''n2'', ''n3'', ''n4'', ''n5'', ''n6''] \<and>
   getLastNNonEphemeralNode (trrack ex_deferred_up) (length (undoStack ex_deferred_up) + 1) = Inr ''n2'' \<and>
   undo_onClick env7 ex_deferred_up =
     Inr (ex_deferred_up
       \<lparr>trrack := trrack_apply env7 ''undo'' (actions_undo [ex_line]) True (trrack ex_deferred_up),
        c_lines := [ex_line], undoStack := [''n3'', ''n6'']\<rparr>)"
  by (simp add: ex_defs model_defs)

section \<open>Undo at the root\<close>

text \<open>
  Claim C10. If the current node is not a state node (it is the root), a click on the
  undo icon performs no apply: the handler returns the state it was given, so the
  provenance graph, the undo stack and the working lines are unchanged.
\<close>

theorem undo_onClick_at_root:
  assumes "getNode (trrack s) (currentNodeId (trrack s)) = Some current"
    and "\<not> isStateNode current"
  shows "undo_onClick env s = Inr s"
proof -
  from assms(1) have l: "map_of (nodes (trrack s)) (currentNodeId (trrack s)) = Some current"
    by (simp add: getNode_def)
  then have "nodes (trrack s) \<noteq> []" by auto
  then obtain f where f: "length (nodes (trrack s)) = Suc f" by (cases "nodes (trrack s)") auto
  from assms(2) have p: "parentId current = None" by (simp add: isStateNode_def)
  have "getLastNNonEphemeralNode (trrack s) (length (undoStack s) + 1) = Inr (currentNodeId (trrack s))"
    unfolding getLastNNonEphemeralNode_def f by (simp only: findLast_Suc_eq [OF l] p) simp
  with assms show ?thesis by (simp add: undo_onClick_def thenE_def)
qed

theorem undo_onClick_at_root_witness:
  "getNode (trrack ex_mounted) (currentNodeId (trrack ex_mounted)) = Some ex_root \<and>
   \<not> isStateNode ex_root \<and>
   undo_onClick env1 ex_mounted = Inr ex_mounted"
proof -
  have a: "getNode (trrack ex_mounted) (currentNodeId (trrack ex_mounted)) = Some ex_root"
    by (simp add: ex_mounted_def ex_root_def env0_def initializeTrrack_def getNode_def)
  have b: "\<not> isStateNode ex_root"
    by (simp add: isStateNode_def ex_root_def)
  from a b undo_onClick_at_root [OF a b, of env1] show ?thesis by simp
qed

section \<open>Clearing the drawing\<close>

text \<open>
  Claim C5. Clearing the drawing is recorded as a new durable (non-ephemeral) node whose
  mutator resets the strokes list to empty; no existing node is removed or edited by a
  clear, and the working lines become empty. The node appended is spelled out; the
  nodes and the resolved states of the graph before the click are all still there; and
  when the new id is fresh and the current node resolves to \<open>st\<close>, the new node
  resolves to \<open>st\<close> with no lines.
\<close>

theorem clear_onClick_spec:
  "nodes (trrack (clear_onClick env s)) =
     nodes (trrack s) @
       [(newId env, \<lparr>parentId = Some (currentNodeId (trrack s)), label = ''clear'',
          invocation = Some \<lparr>mutatorName = ''clear'', parameters = []\<rparr>,
          kind = Durable, timestamp = now env\<rparr>)] \<and>
   currentNodeId (trrack (clear_onClick env s)) = newId env \<and>
   rootState (trrack (clear_onClick env s)) = rootState (trrack s) \<and>
   map_of registry ''clear'' = Some clear_fn \<and> lines (clear_fn st p) = [] \<and>
   c_lines (clear_onClick env s) = [] \<and>
   (\<forall>i n. getNode (trrack s) i = Some n \<longrightarrow> getNode (trrack (clear_onClick env s)) i = Some n) \<and>
   (\<forall>i st'. getState (trrack s) i = Inr st' \<longrightarrow> getState (trrack (clear_onClick env s)) i = Inr st') \<and>
   (newId env \<notin> fst ` set (nodes (trrack s)) \<and>
      getState (trrack s) (currentNodeId (trrack s)) = Inr st \<longrightarrow>
    getState (trrack (clear_onClick env s)) (newId env) = Inr (st\<lparr>lines := []\<rparr>))"
proof -
  have t: "trrack (clear_onClick env s) =
      trrack_apply env ''clear'' (actions_clear []) False (trrack s)"
    by (simp add: clear_onClick_def)
  have "newId env \<notin> fst ` set (nodes (trrack s)) \<Longrightarrow>
      getState (trrack s) (currentNodeId (trrack s)) = Inr st \<Longrightarrow>
      getState (trrack (clear_onClick env s)) (newId env) = Inr (st\<lparr>lines := []\<rparr>)"
    unfolding t
    using getState_apply_new [of env "trrack s" st "actions_clear []" clear_fn "''clear''" False]
    by (simp add: actions_clear_def handle_def clear_registered clear_fn_def)
  moreover have "c_lines (clear_onClick env s) = []" by (simp add: clear_onClick_def)
  moreover have "lines (clear_fn st p) = []" by (simp add: clear_fn_def)
  ultimately show ?thesis
    unfolding t
    by (simp add: nodes_apply current_apply rootState_apply clear_registered getNode_apply_old
        getState_apply_old actions_clear_def handle_def)
qed

theorem clear_onClick_spec_witness:
  "getNode (trrack ex_drawn) ''n0'' = Some ex_root \<and>
   getNode (trrack (clear_onClick env3 ex_drawn)) ''n0'' = Some ex_root \<and>
   getState (trrack ex_drawn) ''n2'' = Inr ex_state \<and>
   getState (trrack (clear_onClick env3 ex_drawn)) ''n2'' = Inr ex_state \<and>
   newId env3 \<notin> fst ` set (nodes (trrack ex_drawn)) \<and>
   getState (trrack ex_drawn) (currentNodeId (trrack ex_drawn)) = Inr ex_state \<and>
   getState (trrack (clear_onClick env3 ex_drawn)) (newId env3) = Inr (ex_state\<lparr>lines := []\<rparr>) \<and>
   c_lines ex_drawn = [ex_line] \<and> c_lines (clear_onClick env3 ex_drawn) = []"
proof -
  note T = clear_onClick_spec [of env3 ex_drawn ex_state "[]"]
  have a: "getNode (trrack ex_drawn) ''n0'' = Some ex_root"
    by (simp add: ex_defs model_defs)
  have b: "getState (trrack ex_drawn) ''n2'' = Inr ex_state"
    by (simp add: ex_defs model_defs)
  have c: "newId env3 \<notin> fst ` set (nodes (trrack ex_drawn))"
    by (simp add: ex_defs model_defs)
  have d: "currentNodeId (trrack ex_drawn) = ''n2''"
    by (simp add: ex_defs model_defs)
  have e: "c_lines ex_drawn = [ex_line]"
    by (simp add: ex_defs model_defs)
  from T a have a': "getNode (trrack (clear_onClick env3 ex_drawn)) ''n0'' = Some ex_root"
    by blast
  from T b have b': "getState (trrack (clear_onClick env3 ex_drawn)) ''n2'' = Inr ex_state"
    by blast
  from T b c d have c': "getState (trrack (clear_onClick env3 ex_drawn)) (newId env3) =
      Inr (ex_state\<lparr>lines := []\<rparr>)"
    by simp
  from T have "c_lines (clear_onClick env3 ex_drawn) = []" by blast
  with a a' b b' c c' d e show ?thesis by simp
qed

section \<open>Completing a stroke\<close>

text \<open>
  Claim C6. On stroke completion (pointer up) the component appends a durable
  \<open>drawEnd\<close> node carrying the complete current stroke list and hands the hosting
  application an answer with committed status and the provenance graph. The answer
  holds the graph after the append; when the new id is fresh and the current node
  resolves to \<open>st\<close>, the new node resolves to \<open>st\<close> with the current stroke list.
\<close>

theorem handleMouseUp_spec:
  "isDrawing (handleMouseUp env s) = False \<and>
   c_lines (handleMouseUp env s) = c_lines s \<and>
   nodes (trrack (handleMouseUp env s)) =
     nodes (trrack s) @
       [(newId env, \<lparr>parentId = Some (currentNodeId (trrack s)), label = ''draw end'',
          invocation = Some \<lparr>mutatorName = ''drawEnd'', parameters = c_lines s\<rparr>,
          kind = Durable, timestamp = now env\<rparr>)] \<and>
   currentNodeId (trrack (handleMouseUp env s)) = newId env \<and>
   rootState (trrack (handleMouseUp env s)) = rootState (trrack s) \<and>
   answer (handleMouseUp env s) =
     Some \<lparr>status = True, provenanceGraph = trrack (handleMouseUp env s), answers = []\<rparr> \<and>
   (newId env \<notin> fst ` set (nodes (trrack s)) \<and>
      getState (trrack s) (currentNodeId (trrack s)) = Inr st \<longrightarrow>
    getState (trrack (handleMouseUp env s)) (newId env) = Inr (st\<lparr>lines := c_lines s\<rparr>))"
proof -
  have t: "trrack (handleMouseUp env s) =
      trrack_apply env ''draw end'' (actions_drawEnd (c_lines s)) False (trrack s)"
    by (simp add: handleMouseUp_def Let_def)
  have "newId env \<notin> fst ` set (nodes (trrack s)) \<Longrightarrow>
      getState (trrack s) (currentNodeId (trrack s)) = Inr st \<Longrightarrow>
      getState (trrack (handleMouseUp env s)) (newId env) = Inr (st\<lparr>lines := c_lines s\<rparr>)"
    unfolding t
    using getState_apply_new [of env "trrack s" st "actions_drawEnd (c_lines s)" drawEnd_fn
        "''draw end''" False]
    by (simp add: actions_drawEnd_def handle_def drawEnd_registered drawEnd_fn_def)
  moreover have "isDrawing (handleMouseUp env s) = False" "c_lines (handleMouseUp env s) = c_lines s"
    "answer (handleMouseUp env s) =
       Some \<lparr>status = True, provenanceGraph = trrack (handleMouseUp env s), answers = []\<rparr>"
    by (simp_all add: handleMouseUp_def Let_def)
  ultimately show ?thesis
    unfolding t
    by (simp add: nodes_apply current_apply rootState_apply actions_drawEnd_def handle_def)
qed

theorem handleMouseUp_spec_witness:
  "newId env2 \<notin> fst ` set (nodes (trrack ex_moved)) \<and>
   getState (trrack ex_moved) (currentNodeId (trrack ex_moved)) = Inr ex_state \<and>
   c_lines ex_moved = [ex_line] \<and>
   getState (trrack (handleMouseUp env2 ex_moved)) (newId env2) = Inr ex_state"
proof -
  note T = handleMouseUp_spec [of env2 ex_moved ex_state]
  have a: "newId env2 \<notin> fst ` set (nodes (trrack ex_moved))"
    by (simp add: ex_defs model_defs)
  have b: "getState (trrack ex_moved) (currentNodeId (trrack ex_moved)) = Inr ex_state"
    by (simp add: ex_defs model_defs)
  have c: "c_lines ex_moved = [ex_line]"
    by (simp add: ex_defs model_defs)
  have d: "ex_state\<lparr>lines := [ex_line]\<rparr> = ex_state"
    by (simp add: ex_state_def)
  from T a b c d show ?thesis by simp
qed

section \<open>When undo is disabled\<close>

text \<open>
  Claim C4 says that the undo icon is disabled exactly when the durable ancestor reached
  after skipping \<open>undoStack.length + 1\<close> durable steps from the current node is the
  root. Line 233 asks the navigator for \<open>undoStack.length\<close> steps. After one stroke on
  a fresh canvas the ancestor at \<open>undoStack.length + 1\<close> steps is the root, and the icon
  is enabled (the stroke can be undone).
\<close>

theorem undo_disabled_counterexample:
  "getLastNNonEphemeralNode (trrack ex_drawn) (length (undoStack ex_drawn) + 1) = Inr ''n0'' \<and>
   getNode (trrack ex_drawn) ''n0'' = Some ex_root \<and> isRootNode ex_root \<and>
   undo_disabled ex_drawn = Inr False"
  by (simp add: ex_defs model_defs)

text \<open>
  Claim C4, amended. On a graph whose current node resolves, the undo icon is disabled
  exactly when the durable ancestor reached after skipping \<open>undoStack.length\<close> durable
  steps from the current node is the root. Nothing throws: the navigator returns a node
  for every skip count (the root once the history is exhausted), computing
  \<open>disabled\<close> and the click handler both return, and a click on the disabled icon
  leaves the state as it is.
\<close>

theorem undo_disabled_spec:
  assumes "isOK (getState (trrack s) (currentNodeId (trrack s)))"
  shows "\<exists>t n. getLastNNonEphemeralNode (trrack s) (length (undoStack s)) = Inr t \<and>
           getNode (trrack s) t = Some n \<and>
           undo_disabled s = Inr (isRootNode n) \<and>
           (\<forall>k. isOK (getLastNNonEphemeralNode (trrack s) k)) \<and>
           isOK (undo_onClick env s) \<and>
           isOK (step num (UndoClick env) s) \<and>
           (isRootNode n \<longrightarrow> step num (UndoClick env) s = Inr s)"
proof -
  from assms obtain st where st: "getState (trrack s) (currentNodeId (trrack s)) = Inr st"
    unfolding isOK_iff ..
  from navigator_total [OF st, of "length (undoStack s)"] obtain t n where
    t: "getLastNNonEphemeralNode (trrack s) (length (undoStack s)) = Inr t"
    and n: "getNode (trrack s) t = Some n" by blast
  then have d: "undo_disabled s = Inr (isRootNode n)"
    by (simp add: undo_disabled_def thenE_def)
  have k: "\<forall>k. isOK (getLastNNonEphemeralNode (trrack s) k)"
    using navigator_total [OF st] unfolding isOK_iff by blast
  have c: "isOK (undo_onClick env s)" using st by (rule undo_onClick_ok)
  from d c have "isOK (step num (UndoClick env) s)"
    by (simp add: thenE_def) (simp add: isOK_def)
  moreover from d have "isRootNode n \<longrightarrow> step num (UndoClick env) s = Inr s"
    by (simp add: thenE_def)
  ultimately show ?thesis using t n d k c by blast
qed

theorem undo_disabled_spec_witness:
  "isOK (getState (trrack ex_mounted) (currentNodeId (trrack ex_mounted))) \<and>
   getLastNNonEphemeralNode (trrack ex_mounted) (length (undoStack ex_mounted)) = Inr ''n0'' \<and>
   getNode (trrack ex_mounted) ''n0'' = Some ex_root \<and> isRootNode ex_root \<and>
   undo_disabled ex_mounted = Inr True \<and>
   step (\<lambda>s. 5) (UndoClick env1) ex_mounted = Inr ex_mounted"
proof -
  have a: "isOK (getState (trrack ex_mounted) (currentNodeId (trrack ex_mounted)))"
    by (simp add: ex_defs model_defs)
  have b: "getLastNNonEphemeralNode (trrack ex_mounted) (length (undoStack ex_mounted)) = Inr ''n0''"
    by (simp add: ex_defs model_defs)
  have c: "getNode (trrack ex_mounted) ''n0'' = Some ex_root"
    by (simp add: ex_defs model_defs)
  have d: "isRootNode ex_root"
    by (simp add: ex_defs model_defs)
  from undo_disabled_spec [OF a, of env1 "\<lambda>s. 5"] b c d
  have "undo_disabled ex_mounted = Inr True \<and>
      step (\<lambda>s. 5) (UndoClick env1) ex_mounted = Inr ex_mounted"
    by auto
  with a b c d show ?thesis by blast
qed

section \<open>Starting a session\<close>

text \<open>
  Claim C7 says that on session start, when a stored graph exists for the configured
  \<open>responseId\<close>, the component sets its working state (lines, tool, penSize, color) to
  the state resolved at the imported graph's current node. Lines 119 to 122 set each
  value with a fallback (\<^verbatim>\<open>state.penSize || '5'\<close>): for a stored graph whose current node
  resolves to an empty \<open>penSize\<close>, the working \<open>penSize\<close> is \<open>5\<close>.
\<close>

theorem Canvas_mount_counterexample:
  "Canvas_mount env0 ''canvas'' [(''canvas_0'', \<lparr>stimulus = Some ex_stored\<rparr>)] = Inr ex_resumed \<and>
   trrack ex_resumed = ex_stored \<and>
   getState ex_stored (currentNodeId ex_stored) = Inr (rootState ex_stored) \<and>
   penSize (rootState ex_stored) = [] \<and>
   c_penSize ex_resumed = ''5'' \<and>
   c_penSize ex_resumed \<noteq> penSize (rootState ex_stored)"
  by (simp add: ex_stored_def ex_resumed_def ex_defs model_defs)

text \<open>
  Claim C7, amended. On session start, when the entry of \<open>answers\<close> found for the
  configured \<open>responseId\<close> holds a stored graph that can be imported and whose current
  node resolves, the component imports it and sets its working lines to the lines
  resolved at the imported graph's current node, and its working tool, penSize and color
  to the resolved ones, or to \<open>pen\<close>, \<open>5\<close> and red where the resolved one is empty; they
  are the resolved ones whenever these are not empty, as for every graph whose root
  state is the component's initial state. When the \<open>responseId\<close> is empty or the entry
  found holds no stored graph, the session starts from the fresh root with the initial
  state \<open>{lines: [], tool: 'pen', color: red, penSize: '5'}\<close>. And the state after import
  matches the state that was saved: started from the graph handed to the host at a
  pointer up (on a graph that can be imported, whose current node resolves and whose root
  state is the initial state, with a fresh id), the session has the lines of that
  pointer up and the graph handed over.
\<close>

theorem Canvas_mount_spec:
  "(responseId \<noteq> [] \<and>
    find (\<lambda>a. startsWith a responseId) (map fst answers') = Some key \<and>
    map_of answers' key = Some stored \<and> stimulus stored = Some serialized \<and>
    wellFormed serialized \<and>
    getState serialized (currentNodeId serialized) = Inr st \<longrightarrow>
    Canvas_mount env responseId answers' =
      Inr \<lparr>c_tool = orElse (tool st) ''pen'', c_penSize = orElse (penSize st) ''5'',
           c_lines = lines st, c_color = orElse (color st) DEFAULT_THEME_colors_red_5,
           mousePos = (0, 0), isDrawing = False, undoStack = [], trrack = serialized,
           answer = None\<rparr> \<and>
    (tool st \<noteq> [] \<longrightarrow> orElse (tool st) ''pen'' = tool st) \<and>
    (penSize st \<noteq> [] \<longrightarrow> orElse (penSize st) ''5'' = penSize st) \<and>
    (color st \<noteq> [] \<longrightarrow> orElse (color st) DEFAULT_THEME_colors_red_5 = color st) \<and>
    (rootState serialized = initialState \<longrightarrow>
       orElse (tool st) ''pen'' = tool st \<and> orElse (penSize st) ''5'' = penSize st \<and>
       orElse (color st) DEFAULT_THEME_colors_red_5 = color st)) \<and>
   (responseId = [] \<or>
    (find (\<lambda>a. startsWith a responseId) (map fst answers') = Some key \<and>
     map_of answers' key = Some stored \<and> stimulus stored = None) \<longrightarrow>
    Canvas_mount env responseId answers' =
      Inr \<lparr>c_tool = tool initialState, c_penSize = penSize initialState,
           c_lines = lines initialState, c_color = color initialState,
           mousePos = (0, 0), isDrawing = False, undoStack = [],
           trrack = initializeTrrack env initialState, answer = None\<rparr> \<and>
    getState (initializeTrrack env initialState) (currentNodeId (initializeTrrack env initialState)) =
      Inr initialState \<and>
    initialState =
      \<lparr>lines = [], tool = ''pen'', color = DEFAULT_THEME_colors_red_5, penSize = ''5''\<rparr>) \<and>
   (wellFormed (trrack s) \<and> isOK (getState (trrack s) (currentNodeId (trrack s))) \<and>
    rootState (trrack s) = initialState \<and> newId envU \<notin> fst ` set (nodes (trrack s)) \<and>
    answer (handleMouseUp envU s) = Some a \<and> responseId \<noteq> [] \<and> startsWith key responseId \<longrightarrow>
    Canvas_mount env responseId [(key, \<lparr>stimulus = Some (provenanceGraph a)\<rparr>)] =
      Inr \<lparr>c_tool = ''pen'', c_penSize = ''5'', c_lines = c_lines s,
           c_color = DEFAULT_THEME_colors_red_5, mousePos = (0, 0), isDrawing = False,
           undoStack = [], trrack = trrack (handleMouseUp envU s), answer = None\<rparr>)"
proof (intro conjI impI)
  assume H: "responseId \<noteq> [] \<and>
    find (\<lambda>a. startsWith a responseId) (map fst answers') = Some key \<and>
    map_of answers' key = Some stored \<and> stimulus stored = Some serialized \<and>
    wellFormed serialized \<and>
    getState serialized (currentNodeId serialized) = Inr st"
  then show "Canvas_mount env responseId answers' =
      Inr \<lparr>c_tool = orElse (tool st) ''pen'', c_penSize = orElse (penSize st) ''5'',
           c_lines = lines st, c_color = orElse (color st) DEFAULT_THEME_colors_red_5,
           mousePos = (0, 0), isDrawing = False, undoStack = [], trrack = serialized,
           answer = None\<rparr>"
    by (simp add: Canvas_mount_def Let_def thenE_def importObject_def)
  show "tool st \<noteq> [] \<Longrightarrow> orElse (tool st) ''pen'' = tool st"
    and "penSize st \<noteq> [] \<Longrightarrow> orElse (penSize st) ''5'' = penSize st"
    and "color st \<noteq> [] \<Longrightarrow> orElse (color st) DEFAULT_THEME_colors_red_5 = color st"
    by (simp_all add: orElse_def)
  assume "rootState serialized = initialState"
  with H getState_frame [of serialized "currentNodeId serialized" st]
  have "tool st = ''pen''" "penSize st = ''5''" "color st = DEFAULT_THEME_colors_red_5"
    by (simp_all add: initialState_def)
  then show "orElse (tool st) ''pen'' = tool st" and "orElse (penSize st) ''5'' = penSize st"
    and "orElse (color st) DEFAULT_THEME_colors_red_5 = color st"
    by (simp_all add: orElse_self)
next
  assume H: "responseId = [] \<or>
    (find (\<lambda>a. startsWith a responseId) (map fst answers') = Some key \<and>
     map_of answers' key = Some stored \<and> stimulus stored = None)"
  have g: "getState (initializeTrrack env initialState) (newId env) = Inr initialState"
    by (rule getState_root)
  have c: "currentNodeId (initializeTrrack env initialState) = newId env"
    by (simp add: initializeTrrack_def)
  from H show "Canvas_mount env responseId answers' =
      Inr \<lparr>c_tool = tool initialState, c_penSize = penSize initialState,
           c_lines = lines initialState, c_color = color initialState,
           mousePos = (0, 0), isDrawing = False, undoStack = [],
           trrack = initializeTrrack env initialState, answer = None\<rparr>"
    by (auto simp: Canvas_mount_def Let_def thenE_def g c orElse_self)
      (simp_all add: initialState_def orElse_self)
  show "getState (initializeTrrack env initialState) (currentNodeId (initializeTrrack env initialState)) =
      Inr initialState"
    by (simp add: g c)
  show "initialState =
      \<lparr>lines = [], tool = ''pen'', color = DEFAULT_THEME_colors_red_5, penSize = ''5''\<rparr>"
    by (simp add: initialState_def)
next
  assume "wellFormed (trrack s) \<and> isOK (getState (trrack s) (currentNodeId (trrack s))) \<and>
    rootState (trrack s) = initialState \<and> newId envU \<notin> fst ` set (nodes (trrack s)) \<and>
    answer (handleMouseUp envU s) = Some a \<and> responseId \<noteq> [] \<and> startsWith key responseId"
  then show "Canvas_mount env responseId [(key, \<lparr>stimulus = Some (provenanceGraph a)\<rparr>)] =
      Inr \<lparr>c_tool = ''pen'', c_penSize = ''5'', c_lines = c_lines s,
           c_color = DEFAULT_THEME_colors_red_5, mousePos = (0, 0), isDrawing = False,
           undoStack = [], trrack = trrack (handleMouseUp envU s), answer = None\<rparr>"
    by (intro resume_after_pointer_up) simp_all
qed

theorem Canvas_mount_spec_witness:
  "find (\<lambda>a. startsWith a ''canvas'') (map fst ex_answers) = Some ''canvas_1'' \<and>
   map_of ex_answers ''canvas_1'' = Some \<lparr>stimulus = Some (trrack ex_drawn)\<rparr> \<and>
   wellFormed (trrack ex_drawn) \<and>
   getState (trrack ex_drawn) (currentNodeId (trrack ex_drawn)) = Inr ex_state \<and>
   rootState (trrack ex_drawn) = initialState \<and>
   Canvas_mount env7 ''canvas'' ex_answers =
     Inr \<lparr>c_tool = ''pen'', c_penSize = ''5'', c_lines = [ex_line],
          c_color = DEFAULT_THEME_colors_red_5, mousePos = (0, 0), isDrawing = False,
          undoStack = [], trrack = trrack ex_drawn, answer = None\<rparr> \<and>
   Canvas_mount env0 [] ex_answers = Inr ex_mounted \<and>
   find (\<lambda>a. startsWith a ''other'') (map fst ex_answers) = Some ''other_0'' \<and>
   map_of ex_answers ''other_0'' = Some \<lparr>stimulus = None\<rparr> \<and>
   Canvas_mount env0 ''other'' ex_answers = Inr ex_mounted \<and>
   wellFormed (trrack ex_moved) \<and>
   isOK (getState (trrack ex_moved) (currentNodeId (trrack ex_moved))) \<and>
   rootState (trrack ex_moved) = initialState \<and>
   newId env2 \<notin> fst ` set (nodes (trrack ex_moved)) \<and>
   answer (handleMouseUp env2 ex_moved) =
     Some \<lparr>status = True, provenanceGraph = trrack ex_drawn, answers = []\<rparr> \<and>
   startsWith ''canvas_1'' ''canvas'' \<and>
   c_lines ex_moved = [ex_line] \<and>
   Canvas_mount env7 ''canvas'' [(''canvas_1'', \<lparr>stimulus = Some (trrack ex_drawn)\<rparr>)] =
     Inr \<lparr>c_tool = ''pen'', c_penSize = ''5'', c_lines = [ex_line],
          c_color = DEFAULT_THEME_colors_red_5, mousePos = (0, 0), isDrawing = False,
          undoStack = [], trrack = trrack ex_drawn, answer = None\<rparr>"
proof -
  have a1: "find (\<lambda>a. startsWith a ''canvas'') (map fst ex_answers) = Some ''canvas_1''"
    and a2: "map_of ex_answers ''canvas_1'' = Some \<lparr>stimulus = Some (trrack ex_drawn)\<rparr>"
    and a3: "wellFormed (trrack ex_drawn)"
    and a4: "getState (trrack ex_drawn) (currentNodeId (trrack ex_drawn)) = Inr ex_state"
    and a5: "rootState (trrack ex_drawn) = initialState"
    by (simp_all add: ex_defs model_defs)
  have st: "tool ex_state = ''pen''" "penSize ex_state = ''5''" "lines ex_state = [ex_line]"
    "color ex_state = DEFAULT_THEME_colors_red_5"
    by (simp_all add: ex_state_def initialState_def)
  from Canvas_mount_spec [of "''canvas''" ex_answers "''canvas_1''"
      "\<lparr>stimulus = Some (trrack ex_drawn)\<rparr>" "trrack ex_drawn" ex_state env7]
    a1 a2 a3 a4 a5
  have r1: "Canvas_mount env7 ''canvas'' ex_answers =
     Inr \<lparr>c_tool = ''pen'', c_penSize = ''5'', c_lines = [ex_line],
          c_color = DEFAULT_THEME_colors_red_5, mousePos = (0, 0), isDrawing = False,
          undoStack = [], trrack = trrack ex_drawn, answer = None\<rparr>"
    by (simp add: st)
  have m: "\<lparr>c_tool = tool initialState, c_penSize = penSize initialState,
           c_lines = lines initialState, c_color = color initialState,
           mousePos = (0, 0), isDrawing = False, undoStack = [],
           trrack = initializeTrrack env0 initialState, answer = None\<rparr> = ex_mounted"
    by (simp add: ex_mounted_def initialState_def)
  from Canvas_mount_spec [of "[]" ex_answers _ _ _ _ env0]
  have r2: "Canvas_mount env0 [] ex_answers = Inr ex_mounted"
    by (simp add: m)
  have b1: "find (\<lambda>a. startsWith a ''other'') (map fst ex_answers) = Some ''other_0''"
    and b2: "map_of ex_answers ''other_0'' = Some \<lparr>stimulus = None\<rparr>"
    by (simp_all add: ex_defs model_defs)
  from Canvas_mount_spec [of "''other''" ex_answers "''other_0''" "\<lparr>stimulus = None\<rparr>" _ _ env0]
    b1 b2
  have r3: "Canvas_mount env0 ''other'' ex_answers = Inr ex_mounted"
    by (simp add: m)
  have c1: "wellFormed (trrack ex_moved)"
    and c2: "isOK (getState (trrack ex_moved) (currentNodeId (trrack ex_moved)))"
    and c3: "rootState (trrack ex_moved) = initialState"
    and c4: "newId env2 \<notin> fst ` set (nodes (trrack ex_moved))"
    and c5: "answer (handleMouseUp env2 ex_moved) =
       Some \<lparr>status = True, provenanceGraph = trrack ex_drawn, answers = []\<rparr>"
    and c6: "startsWith ''canvas_1'' ''canvas''"
    and c7: "c_lines ex_moved = [ex_line]"
    by (simp_all add: ex_defs model_defs)
  have c8: "trrack (handleMouseUp env2 ex_moved) = trrack ex_drawn"
    by (simp add: ex_drawn_def)
  from Canvas_mount_spec [of "''canvas''" _ "''canvas_1''" _ _ _ env7 ex_moved env2
      "\<lparr>status = True, provenanceGraph = trrack ex_drawn, answers = []\<rparr>"]
    c1 c2 c3 c4 c5 c6
  have r4: "Canvas_mount env7 ''canvas'' [(''canvas_1'', \<lparr>stimulus = Some (trrack ex_drawn)\<rparr>)] =
     Inr \<lparr>c_tool = ''pen'', c_penSize = ''5'', c_lines = [ex_line],
          c_color = DEFAULT_THEME_colors_red_5, mousePos = (0, 0), isDrawing = False,
          undoStack = [], trrack = trrack ex_drawn, answer = None\<rparr>"
    by (simp add: c7 c8)
  from a1 a2 a3 a4 a5 r1 r2 b1 b2 r3 c1 c2 c3 c4 c5 c6 c7 r4 show ?thesis
    by (intro conjI)
qed

section \<open>Redo\<close>

text \<open>
  Claim C2. A click on the redo icon with a non-empty undo stack pops the most recently
  pushed node id, resolves that node's state, appends a new ephemeral node carrying the
  resolved lines and sets the working lines to them; the icon is disabled exactly when
  the stack is empty. The claim has the node appended via the \<open>redo\<close> mutator. The
  handler (line 254) builds the invocation with \<^verbatim>\<open>actions.undo\<close>: the node is labelled
  \<open>redo\<close> and names the mutator \<open>undo\<close>. What the handler does:
\<close>

theorem redo_onClick_spec:
  assumes "undoStack s \<noteq> []"
    and "getState (trrack s) (last (undoStack s)) = Inr newState"
  shows "redo_disabled s = False \<and>
     redo_onClick env s =
       Inr (s\<lparr>trrack := (trrack s)
               \<lparr>nodes := nodes (trrack s) @
                  [(newId env, \<lparr>parentId = Some (currentNodeId (trrack s)), label = ''redo'',
                     invocation = Some \<lparr>mutatorName = ''undo'', parameters = lines newState\<rparr>,
                     kind = Ephemeral, timestamp = now env\<rparr>)],
                currentNodeId := newId env\<rparr>,
              c_lines := lines newState,
              undoStack := butlast (undoStack s)\<rparr>)"
  using assms
  by (simp add: redo_onClick_def redo_disabled_def thenE_def trrack_apply_def actions_undo_def
      handle_def)

theorem redo_onClick_spec_witness:
  "undoStack ex_undone \<noteq> [] \<and>
   getState (trrack ex_undone) (last (undoStack ex_undone)) = Inr initialState \<and>
   redo_onClick env5 ex_undone =
     Inr (ex_undone\<lparr>trrack := (trrack ex_undone)
               \<lparr>nodes := nodes (trrack ex_undone) @
                  [(''n5'', \<lparr>parentId = Some ''n4'', label = ''redo'',
                     invocation = Some \<lparr>mutatorName = ''undo'', parameters = []\<rparr>,
                     kind = Ephemeral, timestamp = 5\<rparr>)],
                currentNodeId := ''n5''\<rparr>,
              c_lines := [],
              undoStack := []\<rparr>)"
proof -
  have a: "undoStack ex_undone \<noteq> []"
    by (simp add: ex_defs model_defs)
  have b: "getState (trrack ex_undone) (last (undoStack ex_undone)) = Inr initialState"
    by (simp add: ex_defs model_defs)
  have c: "currentNodeId (trrack ex_undone) = ''n4''" "undoStack ex_undone = [''n3'']"
    "lines initialState = []" "newId env5 = ''n5''" "now env5 = 5"
    by (simp_all add: ex_defs model_defs)
  from redo_onClick_spec [OF a b, of env5] a b show ?thesis
    by (simp only: c butlast.simps if_True) simp
qed

section \<open>The undo stack after a new durable action\<close>

text \<open>
  Claim C3. Every new durable action that is not an undo or a redo (completing a stroke,
  clearing the drawing) clears the undo stack, so that redo is disabled right after it.
  The only handler that empties the stack is the pointer-move handler, while a stroke is
  being drawn (line 172). Neither the pointer-up handler nor \<^verbatim>\<open>Clear all\<close> touches
  the stack: after an undo in the concrete session, \<^verbatim>\<open>Clear all\<close> (or a pointer up that
  no pointer move preceded) leaves the redo icon enabled.
\<close>

theorem durable_actions_keep_undoStack:
  "undoStack (clear_onClick env s) = undoStack s \<and>
   undoStack (handleMouseUp env s) = undoStack s \<and>
   redo_disabled (clear_onClick env s) = redo_disabled s \<and>
   redo_disabled (handleMouseUp env s) = redo_disabled s \<and>
   undoStack ex_undone = [''n3''] \<and>
   redo_disabled (clear_onClick env5 ex_undone) = False \<and>
   redo_disabled (handleMouseUp env5 ex_undone) = False"
  by (simp add: ex_defs model_defs)

section \<open>Pointer moves reach apply through the throttle\<close>

text \<open>
  Claim C8. Every graph node produced by pointer-move drawing is applied as ephemeral
  via the \<open>draw\<close> mutator carrying a copy of the current stroke list, and successive
  pointer-move applies are at least 50 ms apart. The wait is 50. A pointer move either
  leaves the graph alone (outside a stroke, or inside the wait, where the stroke list of
  that move is kept for the trailing edge or an earlier deferred one stays) or, on an open
  throttle, applies \<open>draw\<close> on the stroke list as it is after the move, as an ephemeral
  node labelled \<^verbatim>\<open>'drawing'\<close>. A run of the timer either does nothing or applies \<open>draw\<close> on
  the deferred stroke list in the same way, on an open throttle. In every timed session
  that returns, from any state of the component and of the throttle, the nodes appended
  to the graph are such that every node labelled \<^verbatim>\<open>'drawing'\<close> is ephemeral and invokes
  \<open>draw\<close>; pointer moves and timer runs alone append no other node; and the timestamps of
  the draw nodes, after the time of the throttle's last invocation before the session,
  are each at least 50 after the one before. The copy (\<^verbatim>\<open>structuredClone(l).concat()\<close>)
  is the list itself in a model of values.
\<close>

theorem pointer_move_applies_spaced:
  "throttle_wait = 50 \<and>
   (handleMouseMove_throttled env e (s, th) = Inr (s1, th1) \<longrightarrow>
      (trrack s1 = trrack s \<and> lastInvoke th1 = lastInvoke th \<and>
       (deferred th1 = deferred th \<or> deferred th1 = Some (c_lines s1))) \<or>
      (trrack s1 = trrack_apply env ''drawing'' (actions_draw (c_lines s1)) True (trrack s) \<and>
       throttleOpen th (now env) \<and> th1 = \<lparr>lastInvoke = Some (now env), deferred = None\<rparr>)) \<and>
   (throttle_timerExpired env (s, th) = (s, th) \<or>
    (\<exists>l. deferred th = Some l \<and> throttleOpen th (now env) \<and>
       throttle_timerExpired env (s, th) =
         (s\<lparr>trrack := trrack_apply env ''drawing'' (actions_draw l) True (trrack s)\<rparr>,
          \<lparr>lastInvoke = Some (now env), deferred = None\<rparr>))) \<and>
   (timedRun num evs (s, th) = Inr (s', th') \<and> list_all isTimed evs \<longrightarrow>
      (\<exists>new. nodes (trrack s') = nodes (trrack s) @ new \<and>
         list_all goodDraw (drawNodes new) \<and>
         (list_all isPointerSample evs \<longrightarrow> drawNodes new = map snd new) \<and>
         spaced throttle_wait (since th @ map timestamp (drawNodes new))))"
proof (intro conjI impI)
  show "throttle_wait = 50" by (simp add: throttle_wait_def)
next
  assume "handleMouseMove_throttled env e (s, th) = Inr (s1, th1)"
  from handleMouseMove_throttled_cases [OF this]
  show "(trrack s1 = trrack s \<and> lastInvoke th1 = lastInvoke th \<and>
       (deferred th1 = deferred th \<or> deferred th1 = Some (c_lines s1))) \<or>
      (trrack s1 = trrack_apply env ''drawing'' (actions_draw (c_lines s1)) True (trrack s) \<and>
       throttleOpen th (now env) \<and> th1 = \<lparr>lastInvoke = Some (now env), deferred = None\<rparr>)"
    by (simp add: actions_draw_def handle_def)
next
  from throttle_timerExpired_cases [of env s th]
  show "throttle_timerExpired env (s, th) = (s, th) \<or>
    (\<exists>l. deferred th = Some l \<and> throttleOpen th (now env) \<and>
       throttle_timerExpired env (s, th) =
         (s\<lparr>trrack := trrack_apply env ''drawing'' (actions_draw l) True (trrack s)\<rparr>,
          \<lparr>lastInvoke = Some (now env), deferred = None\<rparr>))"
    by (simp add: actions_draw_def handle_def)
next
  assume a: "timedRun num evs (s, th) = Inr (s', th') \<and> list_all isTimed evs"
  then have r: "timedRun num evs (s, th) = Inr (s', th')" and t: "list_all isTimed evs"
    by simp_all
  from timedRun_spaced [OF r t] obtain new where
    n: "nodes (trrack s') = nodes (trrack s) @ new"
    and g: "list_all goodDraw (drawNodes new)"
    and sp: "spaced throttle_wait (since th @ map timestamp (drawNodes new))" by blast
  have "list_all isPointerSample evs \<longrightarrow> drawNodes new = map snd new"
  proof
    assume "list_all isPointerSample evs"
    from timedRun_pointer [OF r this] obtain new2 where
      "nodes (trrack s') = nodes (trrack s) @ new2" "drawNodes new2 = map snd new2" by blast
    with n show "drawNodes new = map snd new" by simp
  qed
  with n g sp show "\<exists>new. nodes (trrack s') = nodes (trrack s) @ new \<and>
         list_all goodDraw (drawNodes new) \<and>
         (list_all isPointerSample evs \<longrightarrow> drawNodes new = map snd new) \<and>
         spaced throttle_wait (since th @ map timestamp (drawNodes new))" by blast
qed

theorem pointer_move_applies_spaced_witness:
  "handleMouseMove_throttled env100 (Stage (Some (4, 4))) (ex_down2, throttle_fresh) =
     Inr (debouncedApply_fn env100 [ex_line, ex_dot\<lparr>points := [3, 3, 4, 4]\<rparr>]
            (ex_down2\<lparr>c_lines := [ex_line, ex_dot\<lparr>points := [3, 3, 4, 4]\<rparr>]\<rparr>),
          \<lparr>lastInvoke = Some 100, deferred = None\<rparr>) \<and>
   throttleOpen throttle_fresh (now env100) \<and>
   timedRun (\<lambda>s. 5) ex_samples (ex_down2, throttle_fresh) =
     Inr (ex_sampled, \<lparr>lastInvoke = Some 150, deferred = None\<rparr>) \<and>
   list_all isTimed ex_samples \<and>
   list_all isPointerSample ex_samples \<and>
   nodes (trrack ex_sampled) = nodes (trrack ex_down2) @ ex_draws \<and>
   list_all goodDraw (drawNodes ex_draws) \<and>
   drawNodes ex_draws = map snd ex_draws \<and>
   map timestamp (drawNodes ex_draws) = [100, 150] \<and>
   spaced throttle_wait (since throttle_fresh @ map timestamp (drawNodes ex_draws))"
proof -
  have h: "handleMouseMove_throttled env100 (Stage (Some (4, 4))) (ex_down2, throttle_fresh) =
     Inr (debouncedApply_fn env100 [ex_line, ex_dot\<lparr>points := [3, 3, 4, 4]\<rparr>]
            (ex_down2\<lparr>c_lines := [ex_line, ex_dot\<lparr>points := [3, 3, 4, 4]\<rparr>]\<rparr>),
          \<lparr>lastInvoke = Some 100, deferred = None\<rparr>)"
    by (simp add: timed_defs ex_defs model_defs)
  have r: "timedRun (\<lambda>s. 5) ex_samples (ex_down2, throttle_fresh) =
     Inr (ex_sampled, \<lparr>lastInvoke = Some 150, deferred = None\<rparr>)"
    by (simp add: timed_defs ex_defs model_defs)
  have t: "list_all isTimed ex_samples" and p: "list_all isPointerSample ex_samples"
    by (simp_all add: ex_samples_def)
  have n: "nodes (trrack ex_sampled) = nodes (trrack ex_down2) @ ex_draws"
    by (simp add: timed_defs ex_defs model_defs)
  have ts: "map timestamp (drawNodes ex_draws) = [100, 150]"
    by (simp add: ex_draws_def drawNodes_def isDrawNode_def)
  have o: "throttleOpen throttle_fresh (now env100)"
    by (simp add: throttleOpen_def throttle_fresh_def)
  note inst = pointer_move_applies_spaced [of env100 "Stage (Some (4, 4))" ex_down2 throttle_fresh
      "debouncedApply_fn env100 [ex_line, ex_dot\<lparr>points := [3, 3, 4, 4]\<rparr>]
            (ex_down2\<lparr>c_lines := [ex_line, ex_dot\<lparr>points := [3, 3, 4, 4]\<rparr>]\<rparr>)"
      "\<lparr>lastInvoke = Some 100, deferred = None\<rparr>" "\<lambda>s. 5" ex_samples ex_sampled
      "\<lparr>lastInvoke = Some 150, deferred = None\<rparr>"]
  from inst have run: "timedRun (\<lambda>s. 5) ex_samples (ex_down2, throttle_fresh) =
        Inr (ex_sampled, \<lparr>lastInvoke = Some 150, deferred = None\<rparr>) \<and> list_all isTimed ex_samples \<longrightarrow>
      (\<exists>new. nodes (trrack ex_sampled) = nodes (trrack ex_down2) @ new \<and>
         list_all goodDraw (drawNodes new) \<and>
         (list_all isPointerSample ex_samples \<longrightarrow> drawNodes new = map snd new) \<and>
         spaced throttle_wait (since throttle_fresh @ map timestamp (drawNodes new)))"
    by (elim conjE)
  from run [rule_format, OF conjI [OF r t]] obtain new where
    n': "nodes (trrack ex_sampled) = nodes (trrack ex_down2) @ new"
    and g: "list_all goodDraw (drawNodes new)"
    and d: "list_all isPointerSample ex_samples \<longrightarrow> drawNodes new = map snd new"
    and sp: "spaced throttle_wait (since throttle_fresh @ map timestamp (drawNodes new))"
    by (elim exE conjE) (rule that; assumption)
  from n n' have e: "new = ex_draws" by simp
  from d p have d': "drawNodes new = map snd new" by simp
  from h o r t p n g d' ts sp show ?thesis unfolding e by - (intro conjI; assumption)
qed

section \<open>Frame property of the mutators\<close>

text \<open>
  Claim C9. For every input state and parameter, each registered mutator (draw, drawEnd,
  clear, undo, redo) changes only the \<open>lines\<close> field: the \<open>tool\<close>, \<open>color\<close> and
  \<open>penSize\<close> of the returned state are those of the input state.
\<close>

theorem mutators_frame:
  "tool (draw_fn s p) = tool s \<and> color (draw_fn s p) = color s \<and> penSize (draw_fn s p) = penSize s \<and>
   tool (drawEnd_fn s p) = tool s \<and> color (drawEnd_fn s p) = color s \<and> penSize (drawEnd_fn s p) = penSize s \<and>
   tool (clear_fn s p) = tool s \<and> color (clear_fn s p) = color s \<and> penSize (clear_fn s p) = penSize s \<and>
   tool (undo_fn s p) = tool s \<and> color (undo_fn s p) = color s \<and> penSize (undo_fn s p) = penSize s \<and>
   tool (redo_fn s p) = tool s \<and> color (redo_fn s p) = color s \<and> penSize (redo_fn s p) = penSize s"
  by (simp add: draw_fn_def drawEnd_fn_def clear_fn_def undo_fn_def redo_fn_def)

end
